theory Spec2Isabelle
  imports Main
begin

section \<open>The PDF page cache of \<open>src/lib/cache.ts\<close>\<close>

subsection \<open>JavaScript \<open>Map\<close> as an insertion-ordered association list\<close>

text \<open>
  A JavaScript \<open>Map\<close> iterates its entries in insertion order. It is modelled as an
  association list, oldest entry first. \<open>Map.set\<close> on a key that is present replaces
  the value and keeps the position; on an absent key it appends. \<open>Map.delete\<close> removes
  the entry of the key. \<open>map.keys().next().value\<close> is the first key, or \<open>undefined\<close>
  (here \<open>None\<close>) for an empty map.
\<close>

type_synonym 'v js_map = "(string \<times> 'v) list"

definition map_has :: "string \<Rightarrow> 'v js_map \<Rightarrow> bool" where
  "map_has k m = (map_of m k \<noteq> None)"

definition map_get :: "string \<Rightarrow> 'v js_map \<Rightarrow> 'v option" where
  "map_get k m = map_of m k"

definition map_delete :: "string \<Rightarrow> 'v js_map \<Rightarrow> 'v js_map" where
  "map_delete k m = filter (\<lambda>e. fst e \<noteq> k) m"

fun map_set :: "string \<Rightarrow> 'v \<Rightarrow> 'v js_map \<Rightarrow> 'v js_map" where
  "map_set k v [] = [(k, v)]"
| "map_set k v (e # m) = (if fst e = k then (k, v) # m else e # map_set k v m)"

definition map_size :: "'v js_map \<Rightarrow> nat" where
  "map_size m = length m"

definition first_key :: "'v js_map \<Rightarrow> string option" where
  "first_key m = (case m of [] \<Rightarrow> None | e # _ \<Rightarrow> Some (fst e))"

text \<open>
  JavaScript truthiness of a value of type \<open>string | undefined\<close>, as tested by
  \<open>if (oldestKey)\<close>: \<open>undefined\<close> and the empty string are falsy.
\<close>

definition truthy_key :: "string option \<Rightarrow> bool" where
  "truthy_key ok = (case ok of None \<Rightarrow> False | Some k \<Rightarrow> k \<noteq> [])"

subsection \<open>\<open>getPdfPages\<close>, \<open>setPdfPages\<close>, \<open>clearPdfCache\<close>\<close>

type_synonym cache = "string list js_map"

definition PDF_CACHE_MAX_SIZE :: nat where
  "PDF_CACHE_MAX_SIZE = 10"

text \<open>
  \<open>getPdfPages\<close> returns the looked-up value and the cache after the call: a hit
  deletes the entry and inserts it again, which moves it to the end.
\<close>

definition getPdfPages :: "string \<Rightarrow> cache \<Rightarrow> string list option \<times> cache" where
  "getPdfPages key c =
     (case map_get key c of
        Some v \<Rightarrow> (Some v, map_set key v (map_delete key c))
      | None \<Rightarrow> (None, c))"

text \<open>
  The eviction loop of \<open>setPdfPages\<close>:
  \<^verbatim>\<open>
  while (pdfPagesCache.size >= PDF_CACHE_MAX_SIZE) {
    const oldestKey = pdfPagesCache.keys().next().value;
    if (oldestKey) { pdfPagesCache.delete(oldestKey); }
  }
  \<close>
  The loop has no bound of its own, so it is a partial function: \<open>None\<close> is the loop
  that never exits.
\<close>

partial_function (option) evict_loop :: "cache \<Rightarrow> cache option" where
  "evict_loop c =
     (if map_size c \<ge> PDF_CACHE_MAX_SIZE
      then evict_loop (if truthy_key (first_key c) then map_delete (the (first_key c)) c else c)
      else Some c)"

definition setPdfPages :: "string \<Rightarrow> string list \<Rightarrow> cache \<Rightarrow> cache option" where
  "setPdfPages key pgs c =
     (case evict_loop (if map_has key c then map_delete key c else c) of
        None \<Rightarrow> None
      | Some c' \<Rightarrow> Some (map_set key pgs c'))"

definition clearPdfCache :: "cache \<Rightarrow> cache" where
  "clearPdfCache c = []"

text \<open>A sequence of \<open>setPdfPages\<close> calls, one after the other; \<open>None\<close> when a call never returns.\<close>

fun setPdfPages_seq :: "(string \<times> string list) list \<Rightarrow> cache \<Rightarrow> cache option" where
  "setPdfPages_seq [] c = Some c"
| "setPdfPages_seq (kp # kps) c =
     (case setPdfPages (fst kp) (snd kp) c of
        None \<Rightarrow> None
      | Some c' \<Rightarrow> setPdfPages_seq kps c')"

text \<open>
  The representation invariant of the cache between calls: keys are unique (it is a
  \<open>Map\<close>) and there are at most \<open>PDF_CACHE_MAX_SIZE\<close> entries.
\<close>

definition wf_cache :: "cache \<Rightarrow> bool" where
  "wf_cache c = (distinct (map fst c) \<and> length c \<le> PDF_CACHE_MAX_SIZE)"

text \<open>
  A cache is stuck when it is at capacity and its oldest key is the empty string: the
  test \<open>if (oldestKey)\<close> is false, nothing is deleted, and the loop condition stays true.
\<close>

definition stuck :: "cache \<Rightarrow> bool" where
  "stuck c = (length c \<ge> PDF_CACHE_MAX_SIZE \<and> first_key c = Some [])"

text \<open>
  The caches the module can hold: \<open>pdfPagesCache\<close> is a module constant that starts as
  an empty \<open>Map\<close> and is changed by the three exported functions only.
\<close>

inductive reachable_cache :: "cache \<Rightarrow> bool" where
  initial: "reachable_cache []"
| after_get: "reachable_cache c \<Longrightarrow> reachable_cache (snd (getPdfPages key c))"
| after_set: "reachable_cache c \<Longrightarrow> setPdfPages key pgs c = Some c' \<Longrightarrow> reachable_cache c'"
| after_clear: "reachable_cache c \<Longrightarrow> reachable_cache (clearPdfCache c)"

section \<open>Page image URLs (\<open>src/app/file-browser.tsx\<close>)\<close>

text \<open>
  \<open>WORKER_URL\<close> depends on \<open>process.env.NODE_ENV\<close>; the flag says whether the build is
  a development build.
\<close>

definition WORKER_URL :: "bool \<Rightarrow> string" where
  "WORKER_URL development =
     (if development then ''http://localhost:8787''
      else ''https://epstein-files.rhys-669.workers.dev'')"

text \<open>\<open>s.replace(pat, rep)\<close> with a string pattern replaces the first occurrence only.\<close>

fun replace_first :: "string \<Rightarrow> string \<Rightarrow> string \<Rightarrow> string" where
  "replace_first pat rep [] = (if pat = [] then rep else [])"
| "replace_first pat rep (c # cs) =
     (if take (length pat) (c # cs) = pat then rep @ drop (length pat) (c # cs)
      else c # replace_first pat rep cs)"

text \<open>\<open>String(n)\<close> for an integer \<open>n\<close>: its decimal digits.\<close>

definition digit_char :: "nat \<Rightarrow> char" where
  "digit_char d = ''0123456789'' ! d"

function decimal_digits :: "nat \<Rightarrow> string" where
  "decimal_digits n =
     (if 10 \<le> n then decimal_digits (n div 10) @ [digit_char (n mod 10)] else [digit_char n])"
  by pat_completeness auto
termination
  by (relation "measure id") auto

definition js_String :: "int \<Rightarrow> string" where
  "js_String i =
     (if 0 \<le> i then decimal_digits (nat i) else CHR ''-'' # decimal_digits (nat (- i)))"

text \<open>
  \<open>s.padStart(n, pad)\<close>: when \<open>s\<close> is shorter than \<open>n\<close>, the pad string is repeated
  and cut to the missing length, and put in front.
\<close>

definition padStart :: "nat \<Rightarrow> string \<Rightarrow> string \<Rightarrow> string" where
  "padStart n pad s =
     (if n \<le> length s \<or> pad = [] then s
      else take (n - length s) (concat (replicate (n - length s) pad)) @ s)"

definition getPageImageUrl :: "bool \<Rightarrow> string \<Rightarrow> int \<Rightarrow> string" where
  "getPageImageUrl development pdfKey pageNum =
     (let basePath = replace_first ''.pdf'' [] pdfKey;
          pageStr = padStart 3 ''0'' (js_String pageNum)
      in WORKER_URL development @ ''/pdfs-as-jpegs/'' @ basePath @ ''/page-'' @ pageStr @ ''.jpg'')"

text \<open>
  \<open>loadPagesFromImages\<close> pushes the URL of each page \<open>i = 1, \<dots>, pageCount\<close> in
  this order. It has no \<open>await\<close> inside, so it runs to its end when called.
\<close>

definition loadPagesFromImages :: "bool \<Rightarrow> string \<Rightarrow> int \<Rightarrow> string list" where
  "loadPagesFromImages development filePath pageCount =
     map (getPageImageUrl development filePath) [1..pageCount]"

definition fileUrl :: "bool \<Rightarrow> string \<Rightarrow> string" where
  "fileUrl development filePath = WORKER_URL development @ ''/'' @ filePath"

section \<open>Shared state, external calls and their outcomes\<close>

text \<open>
  \<open>prefetchPdf\<close> and \<open>prefetchingSet\<close> are defined twice, with the same names: in
  \<open>src/app/file-browser.tsx\<close> and in \<open>src/app/file/[...path]/page.tsx\<close>. Each module has
  its own in-flight set; both use the one page cache and manifest of \<open>src/lib/cache.ts\<close>.
\<close>

datatype module = FileBrowser | FilePage

text \<open>
  The calls that leave the component: the manifest lookup, the image loads of the warm
  step, and the rendering capability (\<open>pdfjs-dist\<close>). The state keeps them in call order.
\<close>

datatype call =
    ManifestLookup string
  | ImageLoad string
  | ImportPdfjs
  | GetDocument string
  | GetPage string nat
  | Render string nat

text \<open>
  The manifest is a record from keys to \<open>{ pages: number }\<close>. The page counts are
  integers (\<open>src/scripts/generate-pdf-images.ts\<close> writes them from \<open>parseInt\<close>), so the
  entry of a key is modelled by its count, an \<open>int\<close>; the test \<open>pages > 0\<close> stays.
\<close>

type_synonym manifest = "(string \<times> int) list"

record state =
  pdfPagesCache :: cache
  pdfManifest :: "manifest option"
  prefetchingSet :: "module \<Rightarrow> string set"
  calls :: "call list"

definition getPdfManifest :: "state \<Rightarrow> manifest option" where
  "getPdfManifest s = pdfManifest s"

definition setPdfManifest :: "manifest \<Rightarrow> state \<Rightarrow> state" where
  "setPdfManifest m s = s\<lparr>pdfManifest := Some m\<rparr>"

definition getPageCount :: "string \<Rightarrow> state \<Rightarrow> int option" where
  "getPageCount pdfKey s =
     (case pdfManifest s of None \<Rightarrow> None | Some m \<Rightarrow> map_of m pdfKey)"

text \<open>\<open>manifest?.[filePath]\<close>, with the page count of the entry.\<close>

definition manifest_entry :: "manifest option \<Rightarrow> string \<Rightarrow> int option" where
  "manifest_entry mo filePath = (case mo of None \<Rightarrow> None | Some m \<Rightarrow> map_of m filePath)"

definition log_call :: "call \<Rightarrow> state \<Rightarrow> state" where
  "log_call c s = s\<lparr>calls := calls s @ [c]\<rparr>"

text \<open>
  How the awaited external operations end. Each field answers one kind of call:
  whether the dynamic import resolves, the page count of the document at a URL (or its
  rejection), whether \<open>getPage\<close> resolves, and the data URL of a rendered page (or the
  rejection of the render). \<open>thrown_message\<close> is \<open>err.message\<close> of what is thrown, or
  \<open>None\<close> when the thrown value is not an \<open>Error\<close>.
\<close>

record env =
  development :: bool
  import_pdfjs :: bool
  getDocument :: "string \<Rightarrow> nat option"
  getPage :: "string \<Rightarrow> nat \<Rightarrow> bool"
  render :: "string \<Rightarrow> nat \<Rightarrow> string option"
  thrown_message :: "string option"

section \<open>\<open>prefetchPdf\<close> as a resumable computation\<close>

text \<open>
  An \<open>async\<close> function runs without interruption up to its next \<open>await\<close>. A task is the
  point where a call is suspended, with the local variables it needs to go on:
  the key, \<open>pdf.numPages\<close>, \<open>pageNum\<close> and \<open>renderedPages\<close>. \<open>Done\<close> is the settled promise.
\<close>

datatype settled = Fulfilled | Rejected

datatype completion = Normal | Thrown

datatype task =
    Done settled
  | AwaitLoadPagesFromImages module string "string list"
  | AwaitImages module string "string list"
  | AwaitImport module string
  | AwaitDocument module string
  | AwaitGetPage module string nat nat "string list"
  | AwaitRender module string nat nat "string list"

text \<open>
  The end of the \<open>try\<close> block: \<open>catch { }\<close> turns a thrown error into a normal
  completion, \<open>finally\<close> deletes the key from the module's in-flight set, and the promise
  settles according to the completion that is left.
\<close>

definition prefetch_exit :: "module \<Rightarrow> completion \<Rightarrow> string \<Rightarrow> state \<Rightarrow> task \<times> state" where
  "prefetch_exit m r filePath s =
     (let r' = (case r of Thrown \<Rightarrow> Normal | Normal \<Rightarrow> Normal);
          s' = s\<lparr>prefetchingSet := (prefetchingSet s)(m := prefetchingSet s m - {filePath})\<rparr>
      in (Done (case r' of Normal \<Rightarrow> Fulfilled | Thrown \<Rightarrow> Rejected), s'))"

text \<open>The fallback: \<open>await import("pdfjs-dist")\<close> is the first suspension of the rendering path.\<close>

definition start_render :: "module \<Rightarrow> string \<Rightarrow> state \<Rightarrow> task \<times> state" where
  "start_render m filePath s = (AwaitImport m filePath, log_call ImportPdfjs s)"

text \<open>
  The call itself, up to its first \<open>await\<close>. In \<open>getPdfPages(filePath) || \<dots>\<close> the cache is
  read first (an array is truthy, also an empty one), the in-flight set only on a miss.
\<close>

fun prefetchPdf :: "module \<Rightarrow> env \<Rightarrow> string \<Rightarrow> state \<Rightarrow> task \<times> state" where
  "prefetchPdf FileBrowser e filePath s =
     (let got = getPdfPages filePath (pdfPagesCache s);
          s1 = s\<lparr>pdfPagesCache := snd got\<rparr>
      in if fst got \<noteq> None \<or> filePath \<in> prefetchingSet s1 FileBrowser then (Done Fulfilled, s1)
         else
           let s2 = s1\<lparr>prefetchingSet :=
                      (prefetchingSet s1)(FileBrowser := insert filePath (prefetchingSet s1 FileBrowser))\<rparr>;
               s3 = log_call (ManifestLookup filePath) s2;
               manifestEntry = manifest_entry (getPdfManifest s3) filePath
           in (case manifestEntry of
                 Some n \<Rightarrow>
                   if n > 0
                   then (AwaitLoadPagesFromImages FileBrowser filePath
                           (loadPagesFromImages (development e) filePath n), s3)
                   else start_render FileBrowser filePath s3
               | None \<Rightarrow> start_render FileBrowser filePath s3))"
| "prefetchPdf FilePage e filePath s =
     (let got = getPdfPages filePath (pdfPagesCache s);
          s1 = s\<lparr>pdfPagesCache := snd got\<rparr>
      in if fst got \<noteq> None \<or> filePath \<in> prefetchingSet s1 FilePage then (Done Fulfilled, s1)
         else
           let s2 = s1\<lparr>prefetchingSet :=
                      (prefetchingSet s1)(FilePage := insert filePath (prefetchingSet s1 FilePage))\<rparr>
           in start_render FilePage filePath s2)"

text \<open>
  The head of \<open>for (let pageNum = 1; pageNum <= pdf.numPages; pageNum++)\<close>: either the
  next \<open>getPage\<close> is issued and awaited, or the loop is over, a non-empty result is
  written to the cache and the function returns.
\<close>

definition prefetch_loop ::
    "module \<Rightarrow> env \<Rightarrow> string \<Rightarrow> nat \<Rightarrow> nat \<Rightarrow> string list \<Rightarrow> state \<Rightarrow> (task \<times> state) option" where
  "prefetch_loop m e filePath numPages pageNum renderedPages s =
     (if pageNum \<le> numPages
      then Some (AwaitGetPage m filePath numPages pageNum renderedPages,
                 log_call (GetPage (fileUrl (development e) filePath) pageNum) s)
      else if length renderedPages > 0
      then (case setPdfPages filePath renderedPages (pdfPagesCache s) of
              None \<Rightarrow> None
            | Some c \<Rightarrow> Some (prefetch_exit m Normal filePath (s\<lparr>pdfPagesCache := c\<rparr>)))
      else Some (prefetch_exit m Normal filePath s))"

text \<open>
  One resumption: the awaited operation has settled and the task runs to its next
  \<open>await\<close> or to its end. \<open>None\<close>: the call to \<open>setPdfPages\<close> inside never returns.
  The image promises of the warm step resolve on load and on error, so the task awaiting
  them goes on whatever the outcome of each image is.
\<close>

fun prefetch_resume :: "env \<Rightarrow> task \<Rightarrow> state \<Rightarrow> (task \<times> state) option" where
  "prefetch_resume e (Done r) s = Some (Done r, s)"
| "prefetch_resume e (AwaitLoadPagesFromImages m filePath imageUrls) s =
     Some (AwaitImages m filePath imageUrls, s\<lparr>calls := calls s @ map ImageLoad imageUrls\<rparr>)"
| "prefetch_resume e (AwaitImages m filePath imageUrls) s =
     (case setPdfPages filePath imageUrls (pdfPagesCache s) of
        None \<Rightarrow> None
      | Some c \<Rightarrow> Some (prefetch_exit m Normal filePath (s\<lparr>pdfPagesCache := c\<rparr>)))"
| "prefetch_resume e (AwaitImport m filePath) s =
     (if import_pdfjs e
      then Some (AwaitDocument m filePath,
                 log_call (GetDocument (fileUrl (development e) filePath)) s)
      else Some (prefetch_exit m Thrown filePath s))"
| "prefetch_resume e (AwaitDocument m filePath) s =
     (case getDocument e (fileUrl (development e) filePath) of
        None \<Rightarrow> Some (prefetch_exit m Thrown filePath s)
      | Some numPages \<Rightarrow> prefetch_loop m e filePath numPages 1 [] s)"
| "prefetch_resume e (AwaitGetPage m filePath numPages pageNum renderedPages) s =
     (if getPage e (fileUrl (development e) filePath) pageNum
      then Some (AwaitRender m filePath numPages pageNum renderedPages,
                 log_call (Render (fileUrl (development e) filePath) pageNum) s)
      else Some (prefetch_exit m Thrown filePath s))"
| "prefetch_resume e (AwaitRender m filePath numPages pageNum renderedPages) s =
     (case render e (fileUrl (development e) filePath) pageNum of
        None \<Rightarrow> Some (prefetch_exit m Thrown filePath s)
      | Some dataUrl \<Rightarrow>
          prefetch_loop m e filePath numPages (pageNum + 1) (renderedPages @ [dataUrl]) s)"

text \<open>\<open>n\<close> resumptions of one task, nothing else running in between.\<close>

fun prefetch_steps :: "env \<Rightarrow> nat \<Rightarrow> task \<times> state \<Rightarrow> (task \<times> state) option" where
  "prefetch_steps e 0 ts = Some ts"
| "prefetch_steps e (Suc n) ts =
     (case prefetch_resume e (fst ts) (snd ts) of
        None \<Rightarrow> None
      | Some ts' \<Rightarrow> prefetch_steps e n ts')"

section \<open>Notions used to state the properties of a prefetch\<close>

text \<open>A task is pending until its promise settles; a pending task holds a key of a module.\<close>

fun pending :: "task \<Rightarrow> bool" where
  "pending (Done r) = False"
| "pending (AwaitLoadPagesFromImages m k us) = True"
| "pending (AwaitImages m k us) = True"
| "pending (AwaitImport m k) = True"
| "pending (AwaitDocument m k) = True"
| "pending (AwaitGetPage m k n i ps) = True"
| "pending (AwaitRender m k n i ps) = True"

fun owner :: "task \<Rightarrow> (module \<times> string) option" where
  "owner (Done r) = None"
| "owner (AwaitLoadPagesFromImages m k us) = Some (m, k)"
| "owner (AwaitImages m k us) = Some (m, k)"
| "owner (AwaitImport m k) = Some (m, k)"
| "owner (AwaitDocument m k) = Some (m, k)"
| "owner (AwaitGetPage m k n i ps) = Some (m, k)"
| "owner (AwaitRender m k n i ps) = Some (m, k)"

text \<open>The calls of the expensive rendering capability.\<close>

fun is_rendering_call :: "call \<Rightarrow> bool" where
  "is_rendering_call (ManifestLookup k) = False"
| "is_rendering_call (ImageLoad u) = False"
| "is_rendering_call ImportPdfjs = True"
| "is_rendering_call (GetDocument u) = True"
| "is_rendering_call (GetPage u i) = True"
| "is_rendering_call (Render u i) = True"

text \<open>
  The rendering of a document throws when the import is rejected, or the document is
  rejected, or \<open>getPage\<close> or the render of one of its pages is rejected.
\<close>

definition page_fails :: "env \<Rightarrow> string \<Rightarrow> nat \<Rightarrow> bool" where
  "page_fails e filePath pageNum =
     (\<not> (getPage e (fileUrl (development e) filePath) pageNum \<and>
         render e (fileUrl (development e) filePath) pageNum \<noteq> None))"

definition render_throws :: "env \<Rightarrow> string \<Rightarrow> bool" where
  "render_throws e filePath =
     (if import_pdfjs e
      then (case getDocument e (fileUrl (development e) filePath) of
              None \<Rightarrow> True
            | Some numPages \<Rightarrow> (\<exists>pageNum \<in> {1..numPages}. page_fails e filePath pageNum))
      else True)"

text \<open>Whether a prefetch of a key that is neither cached nor in flight goes to the renderer.\<close>

definition takes_render_path :: "module \<Rightarrow> state \<Rightarrow> string \<Rightarrow> bool" where
  "takes_render_path m s filePath =
     (case m of
        FilePage \<Rightarrow> True
      | FileBrowser \<Rightarrow>
          (case manifest_entry (pdfManifest s) filePath of None \<Rightarrow> True | Some n \<Rightarrow> n \<le> 0))"

text \<open>\<open>getDocument\<close> is called by the resumption after the import and by no other.\<close>

fun document_calls_ahead :: "task \<Rightarrow> nat" where
  "document_calls_ahead (AwaitImport m k) = 1"
| "document_calls_ahead t = 0"

text \<open>
  The state when the modules are loaded: an empty cache, no manifest, empty in-flight
  sets. Two environments for examples: one where every external call succeeds and each
  document has two pages, one where the render of page 2 is rejected.
\<close>

definition init_state :: state where
  "init_state = \<lparr>pdfPagesCache = [], pdfManifest = None, prefetchingSet = (\<lambda>m. {}), calls = []\<rparr>"

definition env_ok :: env where
  "env_ok = \<lparr>development = False, import_pdfjs = True, getDocument = (\<lambda>u. Some 2),
     getPage = (\<lambda>u i. True), render = (\<lambda>u i. Some (''data:'' @ decimal_digits i)),
     thrown_message = None\<rparr>"

definition env_page2_fails :: env where
  "env_page2_fails =
     env_ok\<lparr>render := (\<lambda>u i. if i = 2 then None else Some (''data:'' @ decimal_digits i)),
            thrown_message := Some ''render failed''\<rparr>"

text \<open>The tasks from which no call of the rendering capability can follow.\<close>

fun renders_no_more :: "task \<Rightarrow> bool" where
  "renders_no_more (Done r) = True"
| "renders_no_more (AwaitLoadPagesFromImages m k us) = True"
| "renders_no_more (AwaitImages m k us) = True"
| "renders_no_more (AwaitImport m k) = False"
| "renders_no_more (AwaitDocument m k) = False"
| "renders_no_more (AwaitGetPage m k n i ps) = False"
| "renders_no_more (AwaitRender m k n i ps) = False"

section \<open>The direct load of the open document\<close>

text \<open>
  The effect that loads the document of the open view: \<open>loadPages\<close> in
  \<open>src/app/file-browser.tsx\<close> and \<open>loadPdf\<close> in \<open>src/app/file/[...path]/page.tsx\<close>. The view
  has the React state \<open>pages\<close>, \<open>loading\<close>, \<open>error\<close> (and \<open>totalPages\<close> in the file page);
  \<open>cancelled\<close> is the variable of the effect that its cleanup sets. \<open>writes\<close> keeps, in
  order, every state write the load performs: the setters of the view and \<open>setPdfPages\<close>.
\<close>

datatype state_write =
    SetPages "string list"
  | SetLoading bool
  | SetError "string option"
  | SetTotalPages nat
  | SetPdfPages string "string list"

record view =
  pages :: "string list"
  loading :: bool
  error :: "string option"
  totalPages :: nat
  cancelled :: bool
  writes :: "state_write list"

definition setPages :: "string list \<Rightarrow> view \<Rightarrow> view" where
  "setPages ps v = v\<lparr>pages := ps, writes := writes v @ [SetPages ps]\<rparr>"

definition setLoading :: "bool \<Rightarrow> view \<Rightarrow> view" where
  "setLoading b v = v\<lparr>loading := b, writes := writes v @ [SetLoading b]\<rparr>"

definition setError :: "string option \<Rightarrow> view \<Rightarrow> view" where
  "setError x v = v\<lparr>error := x, writes := writes v @ [SetError x]\<rparr>"

definition setTotalPages :: "nat \<Rightarrow> view \<Rightarrow> view" where
  "setTotalPages n v = v\<lparr>totalPages := n, writes := writes v @ [SetTotalPages n]\<rparr>"

text \<open>The cleanup function that the effect returns.\<close>

datatype load_task =
    LoadDone
  | LoadAwaitLoadPagesFromImages string "string list"
  | LoadAwaitImport string
  | LoadAwaitDocument string
  | LoadAwaitGetPage string nat nat "string list"
  | LoadAwaitRender string nat nat "string list"

definition cleanup :: "load_task \<times> state \<times> view \<Rightarrow> load_task \<times> state \<times> view" where
  "cleanup c = (fst c, fst (snd c), (snd (snd c))\<lparr>cancelled := True\<rparr>)"

text \<open>
  The end of the \<open>try\<close> block of the load:
  \<^verbatim>\<open>
  } catch (err) {
    if (!cancelled) { setError(err instanceof Error ? err.message : "Failed to load PDF"); }
  } finally {
    if (!cancelled) { setLoading(false); }
  }
  \<close>
\<close>

definition load_exit :: "env \<Rightarrow> completion \<Rightarrow> state \<Rightarrow> view \<Rightarrow> load_task \<times> state \<times> view" where
  "load_exit e r s v =
     (let v1 = (case r of
                  Thrown \<Rightarrow>
                    if cancelled v then v
                    else setError (Some (case thrown_message e of
                                           Some msg \<Rightarrow> msg
                                         | None \<Rightarrow> ''Failed to load PDF'')) v
                | Normal \<Rightarrow> v);
          v2 = (if cancelled v1 then v1 else setLoading False v1)
      in (LoadDone, s, v2))"

text \<open>The write of the finished pages to the cache, \<open>None\<close> when \<open>setPdfPages\<close> does not return.\<close>

definition cache_write :: "string \<Rightarrow> string list \<Rightarrow> state \<Rightarrow> view \<Rightarrow> (state \<times> view) option" where
  "cache_write filePath ps s v =
     (case setPdfPages filePath ps (pdfPagesCache s) of
        None \<Rightarrow> None
      | Some c \<Rightarrow> Some (s\<lparr>pdfPagesCache := c\<rparr>, v\<lparr>writes := writes v @ [SetPdfPages filePath ps]\<rparr>))"

text \<open>
  \<open>let cancelled = false\<close> and the call of the load function, up to its first \<open>await\<close>.
  Only the file browser looks at the manifest.
\<close>

fun load_start :: "module \<Rightarrow> env \<Rightarrow> string \<Rightarrow> state \<Rightarrow> view \<Rightarrow> load_task \<times> state \<times> view" where
  "load_start FileBrowser e filePath s v =
     (let v0 = v\<lparr>cancelled := False\<rparr>;
          s1 = log_call (ManifestLookup filePath) s;
          manifestEntry = manifest_entry (getPdfManifest s1) filePath
      in case manifestEntry of
           Some n \<Rightarrow>
             if n > 0
             then (LoadAwaitLoadPagesFromImages filePath
                     (loadPagesFromImages (development e) filePath n), s1, v0)
             else (LoadAwaitImport filePath, log_call ImportPdfjs s1, v0)
         | None \<Rightarrow> (LoadAwaitImport filePath, log_call ImportPdfjs s1, v0))"
| "load_start FilePage e filePath s v =
     (LoadAwaitImport filePath, log_call ImportPdfjs s, v\<lparr>cancelled := False\<rparr>)"

text \<open>
  The body of the effect up to the first \<open>await\<close> of the load it starts. The view given is
  the one of the component when the effect runs; the effect's own \<open>cancelled\<close> starts false.
\<close>

fun load_effect :: "module \<Rightarrow> env \<Rightarrow> string \<Rightarrow> state \<Rightarrow> view \<Rightarrow> load_task \<times> state \<times> view" where
  "load_effect FileBrowser e filePath s v =
     (let v1 = setError None v;
          got = getPdfPages filePath (pdfPagesCache s);
          s1 = s\<lparr>pdfPagesCache := snd got\<rparr>
      in case fst got of
           Some cached \<Rightarrow>
             if length cached > 0
             then (LoadDone, s1, setLoading False (setPages cached v1))
             else load_start FileBrowser e filePath s1 (setLoading True (setPages [] v1))
         | None \<Rightarrow> load_start FileBrowser e filePath s1 (setLoading True (setPages [] v1)))"
| "load_effect FilePage e filePath s v =
     (let v1 = setError None v;
          got = getPdfPages filePath (pdfPagesCache s);
          s1 = s\<lparr>pdfPagesCache := snd got\<rparr>
      in case fst got of
           Some cached \<Rightarrow>
             if length cached > 0
             then (LoadDone, s1,
                   setLoading False (setTotalPages (length cached) (setPages cached v1)))
             else load_start FilePage e filePath s1
                    (setTotalPages 0 (setLoading True (setPages [] v1)))
         | None \<Rightarrow> load_start FilePage e filePath s1
                    (setTotalPages 0 (setLoading True (setPages [] v1))))"

text \<open>
  The head of the page loop of the load. Before each page the flag is tested
  (\<open>if (cancelled) return\<close>); after the loop the pages go to the cache when the flag is
  not set and there is at least one page.
\<close>

definition load_loop ::
    "env \<Rightarrow> string \<Rightarrow> nat \<Rightarrow> nat \<Rightarrow> string list \<Rightarrow> state \<Rightarrow> view \<Rightarrow> (load_task \<times> state \<times> view) option" where
  "load_loop e filePath numPages pageNum renderedPages s v =
     (if pageNum \<le> numPages
      then if cancelled v then Some (load_exit e Normal s v)
           else Some (LoadAwaitGetPage filePath numPages pageNum renderedPages,
                      log_call (GetPage (fileUrl (development e) filePath) pageNum) s, v)
      else if \<not> cancelled v \<and> length renderedPages > 0
      then (case cache_write filePath renderedPages s v of
              None \<Rightarrow> None
            | Some sv \<Rightarrow> Some (load_exit e Normal (fst sv) (snd sv)))
      else Some (load_exit e Normal s v))"

text \<open>
  One resumption of the load. After the two awaits inside the loop body (\<open>getPage\<close> and
  the render) the source goes on to \<open>renderedPages.push(dataUrl)\<close> and
  \<open>setPages([...renderedPages])\<close> with no test of the flag in between; the next test is
  at the head of the loop.
\<close>

fun load_resume :: "module \<Rightarrow> env \<Rightarrow> load_task \<times> state \<times> view \<Rightarrow> (load_task \<times> state \<times> view) option" where
  "load_resume m e (LoadDone, s, v) = Some (LoadDone, s, v)"
| "load_resume m e (LoadAwaitLoadPagesFromImages filePath imageUrls, s, v) =
     (if cancelled v then Some (load_exit e Normal s v)
      else (case cache_write filePath imageUrls s (setPages imageUrls v) of
              None \<Rightarrow> None
            | Some sv \<Rightarrow> Some (load_exit e Normal (fst sv) (setLoading False (snd sv)))))"
| "load_resume m e (LoadAwaitImport filePath, s, v) =
     (if import_pdfjs e
      then Some (LoadAwaitDocument filePath,
                 log_call (GetDocument (fileUrl (development e) filePath)) s, v)
      else Some (load_exit e Thrown s v))"
| "load_resume m e (LoadAwaitDocument filePath, s, v) =
     (case getDocument e (fileUrl (development e) filePath) of
        None \<Rightarrow> Some (load_exit e Thrown s v)
      | Some numPages \<Rightarrow>
          if cancelled v then Some (load_exit e Normal s v)
          else load_loop e filePath numPages 1 [] s
                 (case m of FileBrowser \<Rightarrow> v | FilePage \<Rightarrow> setTotalPages numPages v))"
| "load_resume m e (LoadAwaitGetPage filePath numPages pageNum renderedPages, s, v) =
     (if getPage e (fileUrl (development e) filePath) pageNum
      then Some (LoadAwaitRender filePath numPages pageNum renderedPages,
                 log_call (Render (fileUrl (development e) filePath) pageNum) s, v)
      else Some (load_exit e Thrown s v))"
| "load_resume m e (LoadAwaitRender filePath numPages pageNum renderedPages, s, v) =
     (case render e (fileUrl (development e) filePath) pageNum of
        None \<Rightarrow> Some (load_exit e Thrown s v)
      | Some dataUrl \<Rightarrow>
          load_loop e filePath numPages (pageNum + 1) (renderedPages @ [dataUrl]) s
            (setPages (renderedPages @ [dataUrl]) v))"

text \<open>
  A run of one load: each event is either the resumption of the load or the cleanup of
  its effect (the view is torn down or its file changes).
\<close>

datatype load_event = Resume | Cleanup

fun load_run ::
    "module \<Rightarrow> env \<Rightarrow> load_event list \<Rightarrow> load_task \<times> state \<times> view \<Rightarrow> (load_task \<times> state \<times> view) option" where
  "load_run m e [] c = Some c"
| "load_run m e (Resume # evs) c =
     (case load_resume m e c of None \<Rightarrow> None | Some c' \<Rightarrow> load_run m e evs c')"
| "load_run m e (Cleanup # evs) c = load_run m e evs (cleanup c)"

text \<open>The state of a view when it is mounted: \<open>useState([])\<close>, \<open>useState(true)\<close>, \<open>useState(null)\<close>.\<close>

definition init_view :: view where
  "init_view = \<lparr>pages = [], loading = True, error = None, totalPages = 0, cancelled = False,
     writes = []\<rparr>"

section \<open>Facts about the map operations\<close>

lemma map_delete_keys: "map fst (map_delete k m) = removeAll k (map fst m)"
  by (induction m) (auto simp: map_delete_def)

lemma map_delete_absent: "map_of m k = None \<Longrightarrow> map_delete k m = m"
  by (induction m) (auto simp: map_delete_def split: if_splits)

lemma map_set_absent: "map_of m k = None \<Longrightarrow> map_set k v m = m @ [(k, v)]"
  by (induction m) (auto split: if_splits)

lemma map_of_map_delete: "map_of (map_delete k m) k' = (if k' = k then None else map_of m k')"
  by (induction m) (auto simp: map_delete_def)

lemma length_map_delete_present:
  "distinct (map fst m) \<Longrightarrow> map_of m k \<noteq> None \<Longrightarrow> Suc (length (map_delete k m)) = length m"
proof (induction m)
  case Nil
  then show ?case by simp
next
  case (Cons e m)
  show ?case
  proof (cases "fst e = k")
    case True
    with Cons.prems have "map_of m k = None"
      by (cases e) (auto simp: map_of_eq_None_iff image_iff)
    then have "map_delete k m = m" by (rule map_delete_absent)
    with True show ?thesis by (simp add: map_delete_def)
  next
    case False
    with Cons show ?thesis by (cases e) (auto simp: map_delete_def)
  qed
qed

lemma map_delete_head:
  "distinct (map fst (e # m)) \<Longrightarrow> map_delete (fst e) (e # m) = m"
proof -
  assume d: "distinct (map fst (e # m))"
  then have "map_of m (fst e) = None"
    by (auto simp: map_of_eq_None_iff)
  then have "map_delete (fst e) m = m" by (rule map_delete_absent)
  then show ?thesis by (simp add: map_delete_def)
qed

section \<open>The eviction loop\<close>

lemma evict_loop_below: "length c < PDF_CACHE_MAX_SIZE \<Longrightarrow> evict_loop c = Some c"
  by (subst evict_loop.simps) (simp add: map_size_def)

lemma evict_loop_stuck_aux:
  assumes "evict_loop c = Some y"
  shows "\<not> stuck c"
proof (rule evict_loop.raw_induct [where P = "\<lambda>c y. \<not> stuck c", OF _ assms])
  fix f c y
  assume IH: "\<And>c y. f c = Some y \<Longrightarrow> \<not> stuck c"
    and eq: "(if PDF_CACHE_MAX_SIZE \<le> map_size c
              then f (if truthy_key (first_key c) then map_delete (the (first_key c)) c else c)
              else Some c) = Some y"
  show "\<not> stuck c"
  proof
    assume s: "stuck c"
    then have "f c = Some y"
      using eq by (simp add: stuck_def map_size_def truthy_key_def)
    then have "\<not> stuck c" by (rule IH)
    with s show False by simp
  qed
qed

lemma evict_loop_stuck: "stuck c \<Longrightarrow> evict_loop c = None"
  using evict_loop_stuck_aux [of c] by (cases "evict_loop c") auto

lemma evict_loop_head:
  assumes "length (e # m) \<ge> PDF_CACHE_MAX_SIZE" "fst e \<noteq> []" "distinct (map fst (e # m))"
  shows "evict_loop (e # m) = evict_loop m"
proof -
  have "map_delete (fst e) (e # m) = m" using assms(3) by (rule map_delete_head)
  with assms(1,2) show ?thesis
    by (subst evict_loop.simps) (simp add: map_size_def truthy_key_def first_key_def)
qed

lemma evict_loop_full:
  assumes "length (e # m) = PDF_CACHE_MAX_SIZE" "fst e \<noteq> []" "distinct (map fst (e # m))"
  shows "evict_loop (e # m) = Some m"
proof -
  have "evict_loop (e # m) = evict_loop m" using assms by (intro evict_loop_head) auto
  also have "\<dots> = Some m" using assms(1) by (intro evict_loop_below) simp
  finally show ?thesis .
qed

lemma evict_loop_full_stuck:
  assumes "length (e # m) = PDF_CACHE_MAX_SIZE" "fst e = []"
  shows "evict_loop (e # m) = None"
  using assms by (intro evict_loop_stuck) (simp add: stuck_def first_key_def)

text \<open>What \<open>setPdfPages\<close> does on every well-formed cache.\<close>

lemma setPdfPages_present:
  assumes "wf_cache c" "map_has key c"
  shows "setPdfPages key pgs c = Some (map_delete key c @ [(key, pgs)])"
proof -
  from assms have "Suc (length (map_delete key c)) = length c"
    by (intro length_map_delete_present) (auto simp: wf_cache_def map_has_def)
  with assms(1) have "length (map_delete key c) < PDF_CACHE_MAX_SIZE"
    by (simp add: wf_cache_def)
  then have "evict_loop (map_delete key c) = Some (map_delete key c)"
    by (rule evict_loop_below)
  moreover have "map_set key pgs (map_delete key c) = map_delete key c @ [(key, pgs)]"
    by (intro map_set_absent) (simp add: map_of_map_delete)
  ultimately show ?thesis using assms(2) by (simp add: setPdfPages_def)
qed

lemma setPdfPages_absent_below:
  assumes "\<not> map_has key c" "length c < PDF_CACHE_MAX_SIZE"
  shows "setPdfPages key pgs c = Some (c @ [(key, pgs)])"
  using assms by (simp add: setPdfPages_def evict_loop_below map_set_absent map_has_def)

lemma setPdfPages_absent_full:
  assumes "wf_cache (e # m)" "\<not> map_has key (e # m)" "length (e # m) = PDF_CACHE_MAX_SIZE"
    "fst e \<noteq> []"
  shows "setPdfPages key pgs (e # m) = Some (m @ [(key, pgs)])"
proof -
  have "evict_loop (e # m) = Some m"
    using assms by (intro evict_loop_full) (auto simp: wf_cache_def)
  moreover have "map_of m key = None"
    using assms(2) by (cases e) (auto simp: map_has_def split: if_splits)
  ultimately show ?thesis
    using assms(2) by (simp add: setPdfPages_def map_set_absent)
qed

lemma setPdfPages_absent_stuck:
  assumes "\<not> map_has key (e # m)" "length (e # m) = PDF_CACHE_MAX_SIZE" "fst e = []"
  shows "setPdfPages key pgs (e # m) = None"
  using assms by (simp add: setPdfPages_def evict_loop_full_stuck)

lemma wf_cache_empty: "wf_cache []"
  by (simp add: wf_cache_def)

lemma wf_cache_clear: "wf_cache (clearPdfCache c)"
  by (simp add: wf_cache_def clearPdfCache_def)

lemma distinct_map_delete: "distinct (map fst m) \<Longrightarrow> distinct (map fst (map_delete k m))"
  by (simp add: map_delete_keys distinct_removeAll)

lemma setPdfPages_cases:
  assumes "wf_cache c"
  shows "setPdfPages key pgs c =
     (if map_has key c then Some (map_delete key c @ [(key, pgs)])
      else if length c < PDF_CACHE_MAX_SIZE then Some (c @ [(key, pgs)])
      else if fst (hd c) = [] then None
      else Some (tl c @ [(key, pgs)]))"
proof (cases "map_has key c")
  case True
  with assms show ?thesis by (simp add: setPdfPages_present)
next
  case absent: False
  show ?thesis
  proof (cases "length c < PDF_CACHE_MAX_SIZE")
    case True
    with absent show ?thesis by (simp add: setPdfPages_absent_below)
  next
    case False
    with assms have len: "length c = PDF_CACHE_MAX_SIZE" by (simp add: wf_cache_def)
    then obtain e m where c: "c = e # m"
      by (cases c) (auto simp: PDF_CACHE_MAX_SIZE_def)
    show ?thesis
    proof (cases "fst e = []")
      case True
      with absent len c False show ?thesis
        using setPdfPages_absent_stuck [of key e m pgs] by simp
    next
      case False
      with absent len c assms \<open>\<not> length c < PDF_CACHE_MAX_SIZE\<close> show ?thesis
        using setPdfPages_absent_full [of e m key pgs] by simp
    qed
  qed
qed

lemma setPdfPages_wf:
  assumes "wf_cache c" "setPdfPages key pgs c = Some c'"
  shows "wf_cache c'"
proof -
  have d: "distinct (map fst c)" and l: "length c \<le> PDF_CACHE_MAX_SIZE"
    using assms(1) by (simp_all add: wf_cache_def)
  consider (hit) "map_has key c" "c' = map_delete key c @ [(key, pgs)]"
    | (room) "\<not> map_has key c" "length c < PDF_CACHE_MAX_SIZE" "c' = c @ [(key, pgs)]"
    | (evict) "\<not> map_has key c" "length c = PDF_CACHE_MAX_SIZE" "c' = tl c @ [(key, pgs)]"
    using assms(2) l unfolding setPdfPages_cases [OF assms(1)]
    by (auto split: if_splits)
  then show ?thesis
  proof cases
    case hit
    have "Suc (length (map_delete key c)) = length c"
      using d hit(1) by (intro length_map_delete_present) (auto simp: map_has_def)
    moreover have "key \<notin> set (map fst (map_delete key c))"
      by (simp add: map_delete_keys)
    ultimately show ?thesis
      using d l hit(2) by (simp add: wf_cache_def distinct_map_delete)
  next
    case room
    from room(1) have "key \<notin> fst ` set c"
      by (simp add: map_has_def map_of_eq_None_iff)
    with d room show ?thesis by (simp add: wf_cache_def)
  next
    case evict
    from evict(1) have "key \<notin> fst ` set c"
      by (simp add: map_has_def map_of_eq_None_iff)
    moreover have "set (tl c) \<subseteq> set c" by (cases c) auto
    ultimately have "key \<notin> fst ` set (tl c)" by blast
    moreover have "distinct (map fst (tl c))" using d by (cases c) auto
    ultimately show ?thesis
      using evict by (simp add: wf_cache_def PDF_CACHE_MAX_SIZE_def)
  qed
qed

lemma setPdfPages_seq_wf:
  "wf_cache c \<Longrightarrow> setPdfPages_seq kps c = Some c' \<Longrightarrow> wf_cache c'"
proof (induction kps arbitrary: c)
  case Nil
  then show ?case by simp
next
  case (Cons kp kps)
  then show ?case
    by (auto split: option.splits dest: setPdfPages_wf)
qed

text \<open>After each call of a sequence that starts on the empty cache, the size is at most 10.\<close>

lemma setPdfPages_seq_size_bound:
  "setPdfPages_seq (take n kps) [] = Some c \<Longrightarrow> map_size c \<le> PDF_CACHE_MAX_SIZE"
  using setPdfPages_seq_wf [OF wf_cache_empty, of "take n kps" c]
  by (simp add: wf_cache_def map_size_def)

lemma setPdfPages_seq_append:
  "setPdfPages_seq (xs @ ys) c =
     (case setPdfPages_seq xs c of None \<Rightarrow> None | Some c' \<Rightarrow> setPdfPages_seq ys c')"
  by (induction xs arbitrary: c) (auto split: option.splits)

lemma setPdfPages_seq_fill:
  "distinct (map fst (c @ kps)) \<Longrightarrow> length (c @ kps) \<le> PDF_CACHE_MAX_SIZE \<Longrightarrow>
   setPdfPages_seq kps c = Some (c @ kps)"
proof (induction kps arbitrary: c)
  case Nil
  then show ?case by simp
next
  case (Cons kp kps)
  have absent: "\<not> map_has (fst kp) c"
    using Cons.prems(1) by (auto simp: map_has_def map_of_eq_None_iff)
  have "setPdfPages (fst kp) (snd kp) c = Some (c @ [kp])"
    using absent Cons.prems(2) by (simp add: setPdfPages_absent_below)
  moreover have "setPdfPages_seq kps (c @ [kp]) = Some ((c @ [kp]) @ kps)"
    using Cons.prems by (intro Cons.IH) auto
  ultimately show ?case by simp
qed

lemma getPdfPages_wf: "wf_cache c \<Longrightarrow> wf_cache (snd (getPdfPages key c))"
proof -
  assume wf: "wf_cache c"
  show ?thesis
  proof (cases "map_get key c")
    case None
    with wf show ?thesis by (simp add: getPdfPages_def)
  next
    case (Some v)
    then have "setPdfPages key v c = Some (snd (getPdfPages key c))"
      using wf by (simp add: setPdfPages_present getPdfPages_def map_has_def map_get_def
          map_set_absent map_of_map_delete)
    with wf show ?thesis by (rule setPdfPages_wf)
  qed
qed

text \<open>Every cache the module can hold is well formed.\<close>

lemma reachable_cache_wf: "reachable_cache c \<Longrightarrow> wf_cache c"
proof (induction rule: reachable_cache.induct)
  case initial
  show ?case by (rule wf_cache_empty)
next
  case (after_get c key)
  then show ?case by (simp add: getPdfPages_wf)
next
  case (after_set c key pgs c')
  then show ?case by (blast intro: setPdfPages_wf)
next
  case (after_clear c)
  show ?case by (rule wf_cache_clear)
qed

lemma getPdfPages_hit:
  "map_get key c = Some v \<Longrightarrow> getPdfPages key c = (Some v, map_delete key c @ [(key, v)])"
  by (simp add: getPdfPages_def map_set_absent map_of_map_delete)

lemma setPdfPages_seq_eleven:
  assumes "distinct (map fst (kp # kps))" "length (kp # kps) = Suc PDF_CACHE_MAX_SIZE"
  shows "setPdfPages_seq (kp # kps) [] = (if fst kp = [] then None else Some kps)"
proof -
  obtain xs x where kps: "kps = xs @ [x]"
    using assms(2) by (cases kps rule: rev_cases) (auto simp: PDF_CACHE_MAX_SIZE_def)
  have len: "length (kp # xs) = PDF_CACHE_MAX_SIZE" using assms(2) kps by simp
  have "setPdfPages_seq (kp # xs) [] = Some ([] @ (kp # xs))"
    using assms(1) len unfolding kps by (intro setPdfPages_seq_fill) auto
  then have ten: "setPdfPages_seq (kp # xs) [] = Some (kp # xs)" by simp
  have absent: "\<not> map_has (fst x) (kp # xs)"
    using assms(1) unfolding kps by (auto simp: map_has_def map_of_eq_None_iff)
  have wf: "wf_cache (kp # xs)"
    using assms(1) len unfolding kps by (simp add: wf_cache_def)
  have last: "setPdfPages (fst x) (snd x) (kp # xs) =
      (if fst kp = [] then None else Some (xs @ [x]))"
    using absent len setPdfPages_absent_stuck [of "fst x" kp xs "snd x"]
      setPdfPages_absent_full [OF wf absent len, of "snd x"] by simp
  have "setPdfPages_seq ((kp # xs) @ [x]) [] =
      (case setPdfPages_seq (kp # xs) [] of None \<Rightarrow> None
       | Some c' \<Rightarrow> setPdfPages_seq [x] c')"
    by (rule setPdfPages_seq_append)
  with ten last show ?thesis unfolding kps by (simp split: option.splits)
qed

lemma lru_recency_scenario:
  assumes ten: "ten = (a, pa) # (b, pb) # rest" and len: "length ten = PDF_CACHE_MAX_SIZE"
    and d: "distinct (map fst ten @ [k])"
  shows "setPdfPages_seq ten [] = Some ten \<and>
         getPdfPages a ten = (Some pa, (b, pb) # rest @ [(a, pa)]) \<and>
         setPdfPages k pk ((b, pb) # rest @ [(a, pa)]) =
           (if b = [] then None else Some (rest @ [(a, pa), (k, pk)]))"
proof -
  have "setPdfPages_seq ten [] = Some ([] @ ten)"
    using d len by (intro setPdfPages_seq_fill) auto
  then have fill: "setPdfPages_seq ten [] = Some ten" by simp
  have "map_delete a ten = (b, pb) # rest"
    using d map_delete_head [of "(a, pa)" "(b, pb) # rest"] unfolding ten by simp
  then have get: "getPdfPages a ten = (Some pa, (b, pb) # rest @ [(a, pa)])"
    using getPdfPages_hit [of a ten pa] by (simp add: ten map_get_def)
  let ?c = "(b, pb) # rest @ [(a, pa)]"
  have wf: "wf_cache ?c" using d len unfolding ten by (auto simp: wf_cache_def)
  have absent: "\<not> map_has k ?c"
    using d unfolding ten by (auto simp: map_has_def map_of_eq_None_iff)
  have l: "length ?c = PDF_CACHE_MAX_SIZE" using len unfolding ten by simp
  have "setPdfPages k pk ?c = (if b = [] then None else Some (rest @ [(a, pa), (k, pk)]))"
    using setPdfPages_absent_stuck [of k "(b, pb)" "rest @ [(a, pa)]" pk]
      setPdfPages_absent_full [of "(b, pb)" "rest @ [(a, pa)]" k pk] wf absent l by simp
  with fill get show ?thesis by simp
qed

section \<open>Facts about \<open>prefetchPdf\<close>\<close>


lemma prefetchPdf_hit:
  "map_get X (pdfPagesCache s) = Some v \<Longrightarrow>
   prefetchPdf m e X s =
     (Done Fulfilled, s\<lparr>pdfPagesCache := map_delete X (pdfPagesCache s) @ [(X, v)]\<rparr>)"
  by (cases m) (simp_all add: getPdfPages_hit Let_def)

lemma prefetchPdf_in_flight:
  "X \<in> prefetchingSet s m \<Longrightarrow>
   prefetchPdf m e X s =
     (Done Fulfilled, s\<lparr>pdfPagesCache := snd (getPdfPages X (pdfPagesCache s))\<rparr>)"
  by (cases m) (simp_all add: Let_def)

lemma getPdfPages_miss: "map_get X c = None \<Longrightarrow> getPdfPages X c = (None, c)"
  by (simp add: getPdfPages_def)

lemma prefetchPdf_browser_miss:
  assumes "map_get X (pdfPagesCache s) = None" "X \<notin> prefetchingSet s FileBrowser"
  shows "prefetchPdf FileBrowser e X s =
     (let s3 = log_call (ManifestLookup X)
                 (s\<lparr>prefetchingSet :=
                      (prefetchingSet s)(FileBrowser := insert X (prefetchingSet s FileBrowser))\<rparr>)
      in case manifest_entry (pdfManifest s) X of
           Some n \<Rightarrow>
             if n > 0
             then (AwaitLoadPagesFromImages FileBrowser X
                     (loadPagesFromImages (development e) X n), s3)
             else start_render FileBrowser X s3
         | None \<Rightarrow> start_render FileBrowser X s3)"
  using assms
  by (simp add: getPdfPages_miss Let_def getPdfManifest_def log_call_def split: option.splits)

lemma prefetchPdf_page_miss:
  assumes "map_get X (pdfPagesCache s) = None" "X \<notin> prefetchingSet s FilePage"
  shows "prefetchPdf FilePage e X s =
     start_render FilePage X
       (s\<lparr>prefetchingSet := (prefetchingSet s)(FilePage := insert X (prefetchingSet s FilePage))\<rparr>)"
  using assms by (simp add: getPdfPages_miss Let_def)


lemma prefetch_steps_Done: "prefetch_steps e n (Done r, s) = Some (Done r, s)"
  by (induction n) auto

lemma prefetch_exit_eq:
  "prefetch_exit m r k s =
     (Done Fulfilled, s\<lparr>prefetchingSet := (prefetchingSet s)(m := prefetchingSet s m - {k})\<rparr>)"
  by (cases r) (simp_all add: prefetch_exit_def)

text \<open>While a task is pending it changes nothing but the call log.\<close>

lemma prefetch_resume_pending:
  assumes "prefetch_resume e t s = Some (t', s')" "pending t'"
  shows "owner t' = owner t \<and> pdfPagesCache s' = pdfPagesCache s \<and>
         pdfManifest s' = pdfManifest s \<and> prefetchingSet s' = prefetchingSet s"
  using assms
  by (cases t)
     (auto simp: prefetch_exit_eq prefetch_loop_def log_call_def
           split: option.splits if_splits)

lemma prefetch_steps_pending:
  "prefetch_steps e n (t, s) = Some (t', s') \<Longrightarrow> pending t' \<Longrightarrow>
   owner t' = owner t \<and> pdfPagesCache s' = pdfPagesCache s \<and>
   pdfManifest s' = pdfManifest s \<and> prefetchingSet s' = prefetchingSet s"
proof (induction n arbitrary: t s)
  case 0
  then show ?case by simp
next
  case (Suc n)
  from Suc.prems(1) obtain t1 s1 where
    r: "prefetch_resume e t s = Some (t1, s1)" and
    rest: "prefetch_steps e n (t1, s1) = Some (t', s')"
    by (auto split: option.splits)
  from Suc.IH [OF rest Suc.prems(2)] have
    ih: "owner t' = owner t1 \<and> pdfPagesCache s' = pdfPagesCache s1 \<and>
         pdfManifest s' = pdfManifest s1 \<and> prefetchingSet s' = prefetchingSet s1" .
  have "pending t1"
  proof (rule ccontr)
    assume "\<not> pending t1"
    then obtain r where "t1 = Done r" by (cases t1) auto
    with rest have "t' = Done r" by (simp add: prefetch_steps_Done)
    with Suc.prems(2) show False by simp
  qed
  from prefetch_resume_pending [OF r this] ih show ?case by simp
qed

lemma count_list_app: "count_list (xs @ ys) x = count_list xs x + count_list ys x"
  by (induction xs) auto

lemma count_list_map_ImageLoad [simp]:
  "count_list (map ImageLoad us) (ManifestLookup X) = 0"
  "count_list (map ImageLoad us) (GetDocument u) = 0"
  by (induction us) auto

text \<open>A resumption never looks the manifest up: only the call itself does, once.\<close>

lemma prefetch_resume_manifest_lookups:
  assumes "prefetch_resume e t s = Some (t', s')"
  shows "count_list (calls s') (ManifestLookup X) = count_list (calls s) (ManifestLookup X)"
  using assms
  by (cases t)
     (auto simp: prefetch_exit_eq prefetch_loop_def log_call_def count_list_app
           split: option.splits if_splits)

lemma prefetch_steps_manifest_lookups:
  "prefetch_steps e n (t, s) = Some (t', s') \<Longrightarrow>
   count_list (calls s') (ManifestLookup X) = count_list (calls s) (ManifestLookup X)"
proof (induction n arbitrary: t s)
  case 0
  then show ?case by simp
next
  case (Suc n)
  from Suc.prems obtain t1 s1 where
    r: "prefetch_resume e t s = Some (t1, s1)" and
    rest: "prefetch_steps e n (t1, s1) = Some (t', s')"
    by (auto split: option.splits)
  from Suc.IH [OF rest] prefetch_resume_manifest_lookups [OF r] show ?case by simp
qed

lemma prefetch_resume_document_calls:
  assumes "prefetch_resume e t s = Some (t', s')"
  shows "count_list (calls s') (GetDocument u) + document_calls_ahead t'
           \<le> count_list (calls s) (GetDocument u) + document_calls_ahead t"
  using assms
  by (cases t)
     (auto simp: prefetch_exit_eq prefetch_loop_def log_call_def count_list_app
           split: option.splits if_splits)

lemma prefetch_steps_document_calls:
  "prefetch_steps e n (t, s) = Some (t', s') \<Longrightarrow>
   count_list (calls s') (GetDocument u) + document_calls_ahead t'
     \<le> count_list (calls s) (GetDocument u) + document_calls_ahead t"
proof (induction n arbitrary: t s)
  case 0
  then show ?case by simp
next
  case (Suc n)
  from Suc.prems obtain t1 s1 where
    r: "prefetch_resume e t s = Some (t1, s1)" and
    rest: "prefetch_steps e n (t1, s1) = Some (t', s')"
    by (auto split: option.splits)
  from Suc.IH [OF rest] prefetch_resume_document_calls [OF r, of u] show ?case by simp
qed

text \<open>What the call of the file browser does on a key that is neither cached nor in flight.\<close>

lemma prefetchPdf_browser_miss_facts:
  assumes "map_get X (pdfPagesCache s) = None" "X \<notin> prefetchingSet s FileBrowser"
    and "prefetchPdf FileBrowser e X s = (t1, s1)"
  shows "pending t1" and "owner t1 = Some (FileBrowser, X)"
    and "X \<in> prefetchingSet s1 FileBrowser"
    and "pdfPagesCache s1 = pdfPagesCache s"
    and "count_list (calls s1) (ManifestLookup X) = Suc (count_list (calls s) (ManifestLookup X))"
    and "count_list (calls s1) (GetDocument u) + document_calls_ahead t1
           \<le> Suc (count_list (calls s) (GetDocument u))"
  using assms(3) unfolding prefetchPdf_browser_miss [OF assms(1,2)]
  by (auto simp: Let_def start_render_def log_call_def count_list_app
           split: option.splits if_splits)

section \<open>A rendering that throws\<close>

text \<open>
  From the wait for a page on, when one of the pages still to come fails, the task ends
  after finitely many resumptions: the promise is fulfilled, the key has left the
  in-flight set, and the cache and the manifest are as before.
\<close>

lemma render_loop_throws:
  assumes "\<exists>j. pageNum \<le> j \<and> j \<le> numPages \<and> page_fails e Y j"
  shows "\<exists>n s'. prefetch_steps e n (AwaitGetPage m Y numPages pageNum acc, s) = Some (Done Fulfilled, s') \<and>
           pdfPagesCache s' = pdfPagesCache s \<and> pdfManifest s' = pdfManifest s \<and>
           prefetchingSet s' = (prefetchingSet s)(m := prefetchingSet s m - {Y})"
  using assms
proof (induction "numPages - pageNum" arbitrary: pageNum acc s rule: less_induct)
  case less
  let ?u = "fileUrl (development e) Y"
  let ?t = "AwaitGetPage m Y numPages pageNum acc"
  show ?case
  proof (cases "getPage e ?u pageNum")
    case False
    then have "prefetch_steps e 1 (?t, s) = Some (prefetch_exit m Thrown Y s)" by simp
    then show ?thesis unfolding prefetch_exit_eq by (intro exI [of _ 1]) auto
  next
    case gp: True
    let ?s1 = "log_call (Render ?u pageNum) s"
    have step1: "prefetch_resume e ?t s = Some (AwaitRender m Y numPages pageNum acc, ?s1)"
      using gp by simp
    show ?thesis
    proof (cases "render e ?u pageNum")
      case None
      then have "prefetch_steps e 2 (?t, s) = Some (prefetch_exit m Thrown Y ?s1)"
        using gp by (simp add: numeral_2_eq_2)
      then show ?thesis
        unfolding prefetch_exit_eq by (intro exI [of _ 2]) (auto simp: log_call_def)
    next
      case (Some dataUrl)
      with gp have ok: "\<not> page_fails e Y pageNum" by (simp add: page_fails_def)
      from less.prems obtain j where j: "pageNum \<le> j" "j \<le> numPages" "page_fails e Y j" by blast
      with ok have "j \<noteq> pageNum" by auto
      with j have lt: "Suc pageNum \<le> j" by simp
      with j have more: "Suc pageNum \<le> numPages" by simp
      let ?s2 = "log_call (GetPage ?u (Suc pageNum)) ?s1"
      let ?t2 = "AwaitGetPage m Y numPages (Suc pageNum) (acc @ [dataUrl])"
      have step2: "prefetch_resume e (AwaitRender m Y numPages pageNum acc) ?s1 = Some (?t2, ?s2)"
        using Some more by (simp add: prefetch_loop_def)
      have "\<exists>n s'. prefetch_steps e n (?t2, ?s2) = Some (Done Fulfilled, s') \<and>
           pdfPagesCache s' = pdfPagesCache ?s2 \<and> pdfManifest s' = pdfManifest ?s2 \<and>
           prefetchingSet s' = (prefetchingSet ?s2)(m := prefetchingSet ?s2 m - {Y})"
        using more lt j by (intro less.hyps) auto
      then obtain n s' where n: "prefetch_steps e n (?t2, ?s2) = Some (Done Fulfilled, s')"
        and fr: "pdfPagesCache s' = pdfPagesCache s" "pdfManifest s' = pdfManifest s"
          "prefetchingSet s' = (prefetchingSet s)(m := prefetchingSet s m - {Y})"
        by (auto simp: log_call_def)
      have "prefetch_steps e (Suc (Suc n)) (?t, s) = Some (Done Fulfilled, s')"
        using step1 step2 n by simp
      with fr show ?thesis by blast
    qed
  qed
qed

lemma render_throws_settles:
  assumes "render_throws e Y"
  shows "\<exists>n s'. prefetch_steps e n (AwaitImport m Y, s) = Some (Done Fulfilled, s') \<and>
           pdfPagesCache s' = pdfPagesCache s \<and> pdfManifest s' = pdfManifest s \<and>
           prefetchingSet s' = (prefetchingSet s)(m := prefetchingSet s m - {Y})"
proof (cases "import_pdfjs e")
  case False
  then have "prefetch_steps e 1 (AwaitImport m Y, s) = Some (prefetch_exit m Thrown Y s)" by simp
  then show ?thesis unfolding prefetch_exit_eq by (intro exI [of _ 1]) auto
next
  case imp: True
  let ?u = "fileUrl (development e) Y"
  let ?s1 = "log_call (GetDocument ?u) s"
  have step1: "prefetch_resume e (AwaitImport m Y) s = Some (AwaitDocument m Y, ?s1)"
    using imp by simp
  show ?thesis
  proof (cases "getDocument e ?u")
    case None
    then have "prefetch_steps e 2 (AwaitImport m Y, s) = Some (prefetch_exit m Thrown Y ?s1)"
      using imp by (simp add: numeral_2_eq_2)
    then show ?thesis
      unfolding prefetch_exit_eq by (intro exI [of _ 2]) (auto simp: log_call_def)
  next
    case (Some numPages)
    with assms imp obtain j where j: "1 \<le> j" "j \<le> numPages" "page_fails e Y j"
      by (auto simp: render_throws_def)
    let ?s2 = "log_call (GetPage ?u 1) ?s1"
    let ?t2 = "AwaitGetPage m Y numPages 1 []"
    have step2: "prefetch_resume e (AwaitDocument m Y) ?s1 = Some (?t2, ?s2)"
      using Some j by (simp add: prefetch_loop_def)
    have "\<exists>n s'. prefetch_steps e n (?t2, ?s2) = Some (Done Fulfilled, s') \<and>
           pdfPagesCache s' = pdfPagesCache ?s2 \<and> pdfManifest s' = pdfManifest ?s2 \<and>
           prefetchingSet s' = (prefetchingSet ?s2)(m := prefetchingSet ?s2 m - {Y})"
      using j by (intro render_loop_throws) auto
    then obtain n s' where n: "prefetch_steps e n (?t2, ?s2) = Some (Done Fulfilled, s')"
      and fr: "pdfPagesCache s' = pdfPagesCache s" "pdfManifest s' = pdfManifest s"
        "prefetchingSet s' = (prefetchingSet s)(m := prefetchingSet s m - {Y})"
      by (auto simp: log_call_def)
    have "prefetch_steps e (Suc (Suc n)) (AwaitImport m Y, s) = Some (Done Fulfilled, s')"
      using step1 step2 n by simp
    with fr show ?thesis by blast
  qed
qed

text \<open>The call on a key that is neither cached nor in flight, when it goes to the renderer.\<close>

lemma prefetchPdf_render_start:
  assumes "map_get Y (pdfPagesCache s) = None" "Y \<notin> prefetchingSet s m" "takes_render_path m s Y"
  shows "prefetchPdf m e Y s =
     (AwaitImport m Y,
      s\<lparr>prefetchingSet := (prefetchingSet s)(m := insert Y (prefetchingSet s m)),
        calls := calls s @ (case m of FileBrowser \<Rightarrow> [ManifestLookup Y, ImportPdfjs]
                                   | FilePage \<Rightarrow> [ImportPdfjs])\<rparr>)"
proof (cases m)
  case FileBrowser
  note eq = prefetchPdf_browser_miss [OF assms(1) assms(2) [unfolded FileBrowser], of e]
  show ?thesis
    unfolding FileBrowser eq using assms(3)
    by (simp add: Let_def takes_render_path_def start_render_def log_call_def FileBrowser
        split: option.splits)
next
  case FilePage
  note eq = prefetchPdf_page_miss [OF assms(1) assms(2) [unfolded FilePage], of e]
  show ?thesis
    unfolding FilePage eq by (simp add: start_render_def log_call_def)
qed

lemma render_throws_page2: "render_throws env_page2_fails Y"
proof -
  have "page_fails env_page2_fails Y 2"
    by (simp add: page_fails_def env_page2_fails_def)
  then have "\<exists>pageNum \<in> {1..2}. page_fails env_page2_fails Y pageNum"
    by (intro bexI [of _ 2]) simp_all
  then show ?thesis
    by (simp add: render_throws_def env_page2_fails_def env_ok_def)
qed

text \<open>A prefetch of the file browser whose second page fails to render, step by step.\<close>

lemma prefetchPdf_example_page_fails:
  "prefetch_steps env_page2_fails 6 (prefetchPdf FileBrowser env_page2_fails ''y.pdf'' init_state)
     = Some (Done Fulfilled,
         init_state\<lparr>calls :=
           [ManifestLookup ''y.pdf'', ImportPdfjs,
            GetDocument ''https://epstein-files.rhys-669.workers.dev/y.pdf'',
            GetPage ''https://epstein-files.rhys-669.workers.dev/y.pdf'' 1,
            Render ''https://epstein-files.rhys-669.workers.dev/y.pdf'' 1,
            GetPage ''https://epstein-files.rhys-669.workers.dev/y.pdf'' 2,
            Render ''https://epstein-files.rhys-669.workers.dev/y.pdf'' 2]\<rparr>)"
  by (simp add: init_state_def env_page2_fails_def env_ok_def getPdfPages_def map_get_def Let_def
      manifest_entry_def getPdfManifest_def start_render_def log_call_def eval_nat_numeral
      prefetch_loop_def fileUrl_def WORKER_URL_def prefetch_exit_eq fun_eq_iff)

section \<open>The manifest path\<close>

lemma digit_char_0: "digit_char 0 = CHR ''0''"
  by (simp add: digit_char_def)

lemma decimal_digits_1: "n < 10 \<Longrightarrow> decimal_digits n = [digit_char n]"
  by (subst decimal_digits.simps) simp

lemma decimal_digits_2:
  "10 \<le> n \<Longrightarrow> n < 100 \<Longrightarrow> decimal_digits n = [digit_char (n div 10), digit_char (n mod 10)]"
  by (subst decimal_digits.simps) (simp add: decimal_digits_1 del: decimal_digits.simps)

lemma decimal_digits_3:
  "100 \<le> n \<Longrightarrow> n < 1000 \<Longrightarrow>
   decimal_digits n = [digit_char (n div 100), digit_char (n div 10 mod 10), digit_char (n mod 10)]"
proof -
  assume a: "100 \<le> n" "n < 1000"
  then have "10 \<le> n div 10" "n div 10 < 100" by simp_all
  then have "decimal_digits (n div 10) = [digit_char (n div 10 div 10), digit_char (n div 10 mod 10)]"
    by (rule decimal_digits_2)
  moreover have "n div 10 div 10 = n div 100" by (simp add: div_mult2_eq [symmetric])
  ultimately show ?thesis using a by (subst decimal_digits.simps) (simp del: decimal_digits.simps)
qed

lemma length_decimal_digits_pos: "0 < length (decimal_digits n)"
  by (subst decimal_digits.simps) (simp del: decimal_digits.simps)

lemma length_decimal_digits_step:
  "10 \<le> n \<Longrightarrow> length (decimal_digits n) = Suc (length (decimal_digits (n div 10)))"
  by (subst decimal_digits.simps) (simp del: decimal_digits.simps)

lemma decimal_digits_long:
  assumes "1000 \<le> n"
  shows "3 < length (decimal_digits n)"
proof -
  have "10 \<le> n" "10 \<le> n div 10" "10 \<le> n div 10 div 10" using assms by simp_all
  then have "length (decimal_digits n) = Suc (Suc (Suc (length (decimal_digits (n div 10 div 10 div 10)))))"
    by (simp add: length_decimal_digits_step del: decimal_digits.simps)
  then show ?thesis using length_decimal_digits_pos [of "n div 10 div 10 div 10"] by simp
qed

lemma padStart_long_page: "1000 \<le> n \<Longrightarrow> padStart 3 ''0'' (decimal_digits n) = decimal_digits n"
  using decimal_digits_long [of n] by (simp add: padStart_def del: decimal_digits.simps)

text \<open>Page numbers below 1000 are written with three digits, zeros in front.\<close>

lemma padStart_page:
  assumes "n < 1000"
  shows "padStart 3 ''0'' (decimal_digits n) =
    [digit_char (n div 100), digit_char (n div 10 mod 10), digit_char (n mod 10)]"
proof -
  consider "n < 10" | "10 \<le> n" "n < 100" | "100 \<le> n" using assms by linarith
  then show ?thesis
  proof cases
    case 1
    then show ?thesis
      by (simp add: decimal_digits_1 padStart_def digit_char_0 numeral_2_eq_2 del: decimal_digits.simps)
  next
    case 2
    then show ?thesis
      by (simp add: decimal_digits_2 padStart_def digit_char_0 del: decimal_digits.simps)
  next
    case 3
    with assms show ?thesis
      by (simp add: decimal_digits_3 padStart_def del: decimal_digits.simps)
  qed
qed

lemma prefetch_resume_renders_no_more:
  assumes "prefetch_resume e t s = Some (t', s')" "renders_no_more t"
  shows "renders_no_more t' \<and>
         filter is_rendering_call (calls s') = filter is_rendering_call (calls s)"
  using assms
  by (cases t) (auto simp: prefetch_exit_eq comp_def split: option.splits)

lemma prefetch_steps_renders_no_more:
  "prefetch_steps e n (t, s) = Some (t', s') \<Longrightarrow> renders_no_more t \<Longrightarrow>
   filter is_rendering_call (calls s') = filter is_rendering_call (calls s)"
proof (induction n arbitrary: t s)
  case 0
  then show ?case by simp
next
  case (Suc n)
  from Suc.prems(1) obtain t1 s1 where
    r: "prefetch_resume e t s = Some (t1, s1)" and
    rest: "prefetch_steps e n (t1, s1) = Some (t', s')"
    by (auto split: option.splits)
  from prefetch_resume_renders_no_more [OF r Suc.prems(2)] Suc.IH [OF rest] show ?case by simp
qed

lemma getPageImageUrl_page:
  assumes "0 \<le> i" "i < 1000"
  shows "getPageImageUrl dev Z i =
     WORKER_URL dev @ ''/pdfs-as-jpegs/'' @ replace_first ''.pdf'' [] Z @ ''/page-'' @
     [digit_char (nat i div 100), digit_char (nat i div 10 mod 10), digit_char (nat i mod 10)] @
     ''.jpg''"
proof -
  have "nat i < 1000" using assms by simp
  then show ?thesis
    using assms(1) padStart_page [of "nat i"]
    by (simp add: getPageImageUrl_def js_String_def del: decimal_digits.simps)
qed

section \<open>The load after its cleanup\<close>

lemma load_exit_cancelled: "cancelled v \<Longrightarrow> load_exit e r s v = (LoadDone, s, v)"
  by (cases r) (simp_all add: load_exit_def)

text \<open>
  Once the flag is set, a resumption writes neither the cache nor \<open>loading\<close>, \<open>error\<close> or
  \<open>totalPages\<close>. The one write left is \<open>setPages\<close> in the resumption after a render.
\<close>

lemma load_resume_cancelled:
  assumes "cancelled v" "load_resume m e (t, s, v) = Some (t', s', v')"
  shows "cancelled v' \<and> pdfPagesCache s' = pdfPagesCache s \<and> loading v' = loading v \<and>
         error v' = error v \<and> totalPages v' = totalPages v \<and>
         (writes v' = writes v \<and> pages v' = pages v \<or>
          (\<exists>k n i ps d. t = LoadAwaitRender k n i ps \<and>
             render e (fileUrl (development e) k) i = Some d \<and> t' = LoadDone \<and>
             pages v' = ps @ [d] \<and> writes v' = writes v @ [SetPages (ps @ [d])]))"
  using assms
  by (cases t)
     (auto simp: load_exit_cancelled load_loop_def log_call_def setPages_def
           split: option.splits if_splits)

lemma load_resume_cancelled_no_render:
  assumes "cancelled v" "load_resume m e (t, s, v) = Some (t', s', v')"
    and "\<forall>k n i ps. t \<noteq> LoadAwaitRender k n i ps"
  shows "writes v' = writes v \<and> pages v' = pages v"
  using assms
  by (cases t)
     (auto simp: load_exit_cancelled load_loop_def log_call_def setPages_def
           split: option.splits if_splits)


lemma loadPdf_writes_pages_after_cancellation:
  "map_option (\<lambda>c. (fst c, pages (snd (snd c)), cancelled (snd (snd c)), writes (snd (snd c))))
     (load_run FilePage env_ok [Resume, Resume, Cleanup, Resume, Resume]
        (load_effect FilePage env_ok ''a.pdf'' init_state init_view))
     = Some (LoadDone, [''data:1''], True,
             [SetError None, SetPages [], SetLoading True, SetTotalPages 0, SetTotalPages 2,
              SetPages [''data:1'']])"
  by (simp add: init_state_def init_view_def env_ok_def getPdfPages_def map_get_def Let_def
      setError_def setPages_def setLoading_def setTotalPages_def log_call_def load_loop_def
      cleanup_def load_exit_def digit_char_def)

text \<open>A load that is not cancelled, for comparison: both pages are shown and cached.\<close>

lemma loadPages_example_run:
  "map_option (\<lambda>c. (fst c, pdfPagesCache (fst (snd c)), pages (snd (snd c)), loading (snd (snd c)),
                     writes (snd (snd c))))
     (load_run FileBrowser env_ok [Resume, Resume, Resume, Resume, Resume, Resume]
        (load_effect FileBrowser env_ok ''a.pdf'' init_state init_view))
     = Some (LoadDone, [(''a.pdf'', [''data:1'', ''data:2''])], [''data:1'', ''data:2''], False,
             [SetError None, SetPages [], SetLoading True, SetPages [''data:1''],
              SetPages [''data:1'', ''data:2''], SetPdfPages ''a.pdf'' [''data:1'', ''data:2''],
              SetLoading False])"
proof -
  have wf: "wf_cache []" by (rule wf_cache_empty)
  show ?thesis
    by (simp add: init_state_def init_view_def env_ok_def getPdfPages_def map_get_def Let_def
      setError_def setPages_def setLoading_def log_call_def manifest_entry_def
      getPdfManifest_def load_loop_def cleanup_def load_exit_def digit_char_def cache_write_def
      setPdfPages_cases [OF wf] map_has_def PDF_CACHE_MAX_SIZE_def)
qed

text \<open>A load whose second page fails to render: the error is shown, \<open>loading\<close> ends.\<close>

lemma loadPages_example_error:
  "map_option (\<lambda>c. (fst c, pdfPagesCache (fst (snd c)), pages (snd (snd c)), loading (snd (snd c)),
                     error (snd (snd c)), writes (snd (snd c))))
     (load_run FileBrowser env_page2_fails [Resume, Resume, Resume, Resume, Resume, Resume]
        (load_effect FileBrowser env_page2_fails ''a.pdf'' init_state init_view))
     = Some (LoadDone, [], [''data:1''], False, Some ''render failed'',
             [SetError None, SetPages [], SetLoading True, SetPages [''data:1''],
              SetError (Some ''render failed''), SetLoading False])"
  by (simp add: init_state_def init_view_def env_page2_fails_def env_ok_def getPdfPages_def
      map_get_def Let_def setError_def setPages_def setLoading_def log_call_def
      manifest_entry_def getPdfManifest_def load_loop_def load_exit_def digit_char_def)

section \<open>Claims about the page cache\<close>

text \<open>
  Claim C1. Every sequence of \<open>setPdfPages\<close> calls keeps the cache at no more than 10
  entries, and 11 distinct keys inserted into an empty cache leave exactly the 10 inserted
  last. The size bound holds after every call that returns (\<open>setPdfPages_seq_size_bound\<close>), and
  11 distinct keys leave the last 10 whenever the first key is not the empty string
  (\<open>setPdfPages_seq_eleven\<close>). With the empty string as the first key the eleventh call
  never returns: the eviction loop tests the oldest key for truthiness, the empty string is
  falsy, nothing is deleted and the loop condition stays true.
\<close>

theorem setPdfPages_eleven_keys_empty_first_diverges:
  "setPdfPages_seq
     [('''', [''p0'']), (''k1'', [''p1'']), (''k2'', [''p2'']), (''k3'', [''p3'']),
      (''k4'', [''p4'']), (''k5'', [''p5'']), (''k6'', [''p6'']), (''k7'', [''p7'']),
      (''k8'', [''p8'']), (''k9'', [''p9'']), (''k10'', [''p10''])] [] = None"
  by (subst setPdfPages_seq_eleven) (simp_all add: PDF_CACHE_MAX_SIZE_def)

text \<open>
  Claim C3. Ten distinct keys A to J are inserted, A is read, K is inserted: B is evicted
  and A stays. This is what happens for every choice of distinct keys in which B is not
  the empty string (\<open>lru_recency_scenario\<close>). When B is the empty string, the read of A
  makes it the oldest key and the insertion of K never returns.
\<close>

theorem lru_recency_empty_B_diverges:
  "setPdfPages_seq
     [(''A'', [''a'']), ('''', [''b'']), (''C'', [''c'']), (''D'', [''d'']), (''E'', [''e'']),
      (''F'', [''f'']), (''G'', [''g'']), (''H'', [''h'']), (''I'', [''i'']), (''J'', [''j''])] []
     = Some [(''A'', [''a'']), ('''', [''b'']), (''C'', [''c'']), (''D'', [''d'']),
        (''E'', [''e'']), (''F'', [''f'']), (''G'', [''g'']), (''H'', [''h'']), (''I'', [''i'']),
        (''J'', [''j''])] \<and>
   getPdfPages ''A''
     [(''A'', [''a'']), ('''', [''b'']), (''C'', [''c'']), (''D'', [''d'']), (''E'', [''e'']),
      (''F'', [''f'']), (''G'', [''g'']), (''H'', [''h'']), (''I'', [''i'']), (''J'', [''j''])]
     = (Some [''a''],
        [('''', [''b'']), (''C'', [''c'']), (''D'', [''d'']), (''E'', [''e'']), (''F'', [''f'']),
         (''G'', [''g'']), (''H'', [''h'']), (''I'', [''i'']), (''J'', [''j'']), (''A'', [''a''])]) \<and>
   setPdfPages ''K'' [''k'']
     [('''', [''b'']), (''C'', [''c'']), (''D'', [''d'']), (''E'', [''e'']), (''F'', [''f'']),
      (''G'', [''g'']), (''H'', [''h'']), (''I'', [''i'']), (''J'', [''j'']), (''A'', [''a''])]
     = None"
  using lru_recency_scenario [of
      "[(''A'', [''a'']), ('''', [''b'']), (''C'', [''c'']), (''D'', [''d'']), (''E'', [''e'']),
        (''F'', [''f'']), (''G'', [''g'']), (''H'', [''h'']), (''I'', [''i'']), (''J'', [''j''])]"
      "''A''" "[''a'']" "''''" "[''b'']"
      "[(''C'', [''c'']), (''D'', [''d'']), (''E'', [''e'']),
        (''F'', [''f'']), (''G'', [''g'']), (''H'', [''h'']), (''I'', [''i'']), (''J'', [''j''])]"
      "''K''" "[''k'']"]
  by (simp add: PDF_CACHE_MAX_SIZE_def)

text \<open>
  Claim C6. For a key A that is present, \<open>setPdfPages A p2\<close> returns, keeps the size,
  keeps every other entry with its value (and in its relative order), makes
  \<open>getPdfPages A\<close> return \<open>p2\<close>, and puts A last, the most recently used position.
\<close>

theorem setPdfPages_existing_key:
  assumes "wf_cache c" "map_has A c"
  shows "\<exists>c'. setPdfPages A p2 c = Some c' \<and>
           map_size c' = map_size c \<and>
           (\<forall>k. k \<noteq> A \<longrightarrow> map_get k c' = map_get k c) \<and>
           fst ` set c' = fst ` set c \<and>
           fst (getPdfPages A c') = Some p2 \<and>
           c' = map_delete A c @ [(A, p2)]"
proof -
  let ?c' = "map_delete A c @ [(A, p2)]"
  have set: "setPdfPages A p2 c = Some ?c'" using assms by (rule setPdfPages_present)
  have "Suc (length (map_delete A c)) = length c"
    using assms by (intro length_map_delete_present) (auto simp: wf_cache_def map_has_def)
  then have size: "map_size ?c' = map_size c" by (simp add: map_size_def)
  have others: "\<forall>k. k \<noteq> A \<longrightarrow> map_get k ?c' = map_get k c"
    by (auto simp: map_get_def map_add_def map_of_map_delete split: option.splits)
  have "A \<in> fst ` set c" using assms(2) by (auto simp: map_has_def map_of_eq_None_iff)
  then have keys: "fst ` set ?c' = fst ` set c"
    by (auto simp: map_delete_def)
  have "map_get A ?c' = Some p2"
    by (simp add: map_get_def map_add_def map_of_map_delete)
  then have get: "fst (getPdfPages A ?c') = Some p2" by (simp add: getPdfPages_def)
  from set size others keys get show ?thesis by blast
qed

theorem setPdfPages_existing_key_witness:
  "wf_cache [(''a.pdf'', [''old'']), (''b.pdf'', [''q''])] \<and>
   map_has ''a.pdf'' [(''a.pdf'', [''old'']), (''b.pdf'', [''q''])] \<and>
   setPdfPages ''a.pdf'' [''new''] [(''a.pdf'', [''old'']), (''b.pdf'', [''q''])] =
     Some [(''b.pdf'', [''q'']), (''a.pdf'', [''new''])]"
proof -
  have h1: "wf_cache [(''a.pdf'', [''old'']), (''b.pdf'', [''q''])]"
    by (simp add: wf_cache_def PDF_CACHE_MAX_SIZE_def)
  have h2: "map_has ''a.pdf'' [(''a.pdf'', [''old'']), (''b.pdf'', [''q''])]"
    by (simp add: map_has_def)
  show ?thesis
    using h1 h2 setPdfPages_existing_key [OF h1 h2, of "[''new'']"]
    by (simp add: map_delete_def)
qed

text \<open>
  Claim C9. \<open>setPdfPages\<close> terminates in every cache state, also when the cache is at
  capacity and its oldest key is the empty string. Ten calls from the empty cache reach
  that state, and the next call for a new key does not return.
\<close>

theorem setPdfPages_empty_oldest_key_diverges:
  "setPdfPages_seq
     [('''', [''p0'']), (''k1'', [''p1'']), (''k2'', [''p2'']), (''k3'', [''p3'']),
      (''k4'', [''p4'']), (''k5'', [''p5'']), (''k6'', [''p6'']), (''k7'', [''p7'']),
      (''k8'', [''p8'']), (''k9'', [''p9''])] []
     = Some [('''', [''p0'']), (''k1'', [''p1'']), (''k2'', [''p2'']), (''k3'', [''p3'']),
        (''k4'', [''p4'']), (''k5'', [''p5'']), (''k6'', [''p6'']), (''k7'', [''p7'']),
        (''k8'', [''p8'']), (''k9'', [''p9''])] \<and>
   setPdfPages ''new.pdf'' [''p'']
     [('''', [''p0'']), (''k1'', [''p1'']), (''k2'', [''p2'']), (''k3'', [''p3'']),
      (''k4'', [''p4'']), (''k5'', [''p5'']), (''k6'', [''p6'']), (''k7'', [''p7'']),
      (''k8'', [''p8'']), (''k9'', [''p9''])] = None"
proof -
  let ?c = "[('''', [''p0'']), (''k1'', [''p1'']), (''k2'', [''p2'']), (''k3'', [''p3'']),
      (''k4'', [''p4'']), (''k5'', [''p5'']), (''k6'', [''p6'']), (''k7'', [''p7'']),
      (''k8'', [''p8'']), (''k9'', [''p9''])]"
  have "setPdfPages_seq ?c [] = Some ([] @ ?c)"
    by (rule setPdfPages_seq_fill) (simp_all add: PDF_CACHE_MAX_SIZE_def)
  moreover have "setPdfPages ''new.pdf'' [''p''] ?c = None"
    by (rule setPdfPages_absent_stuck) (simp_all add: map_has_def PDF_CACHE_MAX_SIZE_def)
  ultimately show ?thesis by simp
qed

text \<open>
  Claim C10. For a key that is not in the cache, \<open>getPdfPages\<close> returns absent and
  the cache after the call is the cache before it: same entries, same order.
\<close>

theorem getPdfPages_miss_unchanged:
  "\<not> map_has key c \<Longrightarrow> getPdfPages key c = (None, c)"
  by (simp add: getPdfPages_def map_has_def map_get_def)

theorem getPdfPages_miss_unchanged_witness:
  "\<not> map_has ''b.pdf'' [(''a.pdf'', [''p1'', ''p2'']), (''c.pdf'', [''q1''])] \<and>
   getPdfPages ''b.pdf'' [(''a.pdf'', [''p1'', ''p2'']), (''c.pdf'', [''q1''])] =
     (None, [(''a.pdf'', [''p1'', ''p2'']), (''c.pdf'', [''q1''])])"
proof -
  have h: "\<not> map_has ''b.pdf'' [(''a.pdf'', [''p1'', ''p2'']), (''c.pdf'', [''q1''])]"
    by (simp add: map_has_def)
  show ?thesis using h getPdfPages_miss_unchanged [OF h] by simp
qed

section \<open>Claims about the prefetch and the direct load\<close>

text \<open>
  Claim C2. A call of \<open>prefetchPdf\<close> of the file browser that goes on (its key is
  neither cached nor in flight) puts the key into the in-flight set before its first
  suspension: the task it returns is pending and the key is in the set. Any call that
  starts in a state where the key is in the set returns at once with no manifest lookup,
  no image load and no call of the renderer, and leaves the set as it is. So when a
  second call for the key is issued before the first one has settled, after any number
  of resumptions of the first, the second call changes nothing at all, and over the
  whole run the manifest is looked up for the key exactly once and its document is
  requested at most once.
\<close>

theorem prefetchPdf_deduplicates:
  assumes miss: "map_get X (pdfPagesCache s) = None"
    and idle: "X \<notin> prefetchingSet s FileBrowser"
    and first: "prefetchPdf FileBrowser e X s = (t1, s1)"
    and run: "prefetch_steps e n (t1, s1) = Some (tn, sn)"
  shows "pending t1 \<and> X \<in> prefetchingSet s1 FileBrowser \<and>
         (\<forall>s'. X \<in> prefetchingSet s' FileBrowser \<longrightarrow>
               fst (prefetchPdf FileBrowser e X s') = Done Fulfilled \<and>
               calls (snd (prefetchPdf FileBrowser e X s')) = calls s' \<and>
               prefetchingSet (snd (prefetchPdf FileBrowser e X s')) = prefetchingSet s') \<and>
         (pending tn \<longrightarrow> prefetchPdf FileBrowser e X sn = (Done Fulfilled, sn)) \<and>
         count_list (calls sn) (ManifestLookup X) = Suc (count_list (calls s) (ManifestLookup X)) \<and>
         count_list (calls sn) (GetDocument u) \<le> Suc (count_list (calls s) (GetDocument u))"
proof -
  note start = prefetchPdf_browser_miss_facts [OF miss idle first]
  have noop: "\<forall>s'. X \<in> prefetchingSet s' FileBrowser \<longrightarrow>
               fst (prefetchPdf FileBrowser e X s') = Done Fulfilled \<and>
               calls (snd (prefetchPdf FileBrowser e X s')) = calls s' \<and>
               prefetchingSet (snd (prefetchPdf FileBrowser e X s')) = prefetchingSet s'"
    by (simp add: prefetchPdf_in_flight)
  have second: "prefetchPdf FileBrowser e X sn = (Done Fulfilled, sn)" if p: "pending tn"
  proof -
    from prefetch_steps_pending [OF run p] start(3,4) miss
    have "X \<in> prefetchingSet sn FileBrowser" and "map_get X (pdfPagesCache sn) = None"
      by simp_all
    then show ?thesis by (simp add: prefetchPdf_in_flight getPdfPages_miss)
  qed
  have lookups: "count_list (calls sn) (ManifestLookup X)
      = Suc (count_list (calls s) (ManifestLookup X))"
    using prefetch_steps_manifest_lookups [OF run, of X] start(5) by simp
  have docs: "count_list (calls sn) (GetDocument u) \<le> Suc (count_list (calls s) (GetDocument u))"
    using prefetch_steps_document_calls [OF run, of u] start(6) [of u] by simp
  from start(1,3) noop second lookups docs show ?thesis by blast
qed

theorem prefetchPdf_deduplicates_witness:
  "map_get ''a.pdf'' (pdfPagesCache init_state) = None \<and>
   ''a.pdf'' \<notin> prefetchingSet init_state FileBrowser \<and>
   fst (prefetchPdf FileBrowser env_ok ''a.pdf'' init_state) = AwaitImport FileBrowser ''a.pdf'' \<and>
   ''a.pdf'' \<in> prefetchingSet (snd (prefetchPdf FileBrowser env_ok ''a.pdf'' init_state)) FileBrowser \<and>
   map_option fst (prefetch_steps env_ok 1 (prefetchPdf FileBrowser env_ok ''a.pdf'' init_state))
     = Some (AwaitDocument FileBrowser ''a.pdf'') \<and>
   map_option (\<lambda>ts. fst (prefetchPdf FileBrowser env_ok ''a.pdf'' (snd ts)))
      (prefetch_steps env_ok 1 (prefetchPdf FileBrowser env_ok ''a.pdf'' init_state))
     = Some (Done Fulfilled) \<and>
   map_option (\<lambda>ts. calls (snd (prefetchPdf FileBrowser env_ok ''a.pdf'' (snd ts))))
      (prefetch_steps env_ok 1 (prefetchPdf FileBrowser env_ok ''a.pdf'' init_state))
     = Some [ManifestLookup ''a.pdf'', ImportPdfjs,
             GetDocument ''https://epstein-files.rhys-669.workers.dev/a.pdf'']"
proof -
  have h1: "map_get ''a.pdf'' (pdfPagesCache init_state) = None"
    by (simp add: init_state_def map_get_def)
  have h2: "''a.pdf'' \<notin> prefetchingSet init_state FileBrowser"
    by (simp add: init_state_def)
  obtain t1 s1 where h3: "prefetchPdf FileBrowser env_ok ''a.pdf'' init_state = (t1, s1)"
    by (cases "prefetchPdf FileBrowser env_ok ''a.pdf'' init_state")
  have t1: "t1 = AwaitImport FileBrowser ''a.pdf''"
    using h3 unfolding prefetchPdf_browser_miss [OF h1 h2]
    by (simp add: init_state_def manifest_entry_def start_render_def)
  have c1: "calls s1 = [ManifestLookup ''a.pdf'', ImportPdfjs]"
    using h3 unfolding prefetchPdf_browser_miss [OF h1 h2]
    by (auto simp: init_state_def manifest_entry_def start_render_def log_call_def)
  obtain sn where h4: "prefetch_steps env_ok 1 (t1, s1) = Some (AwaitDocument FileBrowser ''a.pdf'', sn)"
    and cn: "calls sn = calls s1 @ [GetDocument ''https://epstein-files.rhys-669.workers.dev/a.pdf'']"
    by (simp add: t1 env_ok_def log_call_def fileUrl_def WORKER_URL_def)
  from prefetchPdf_deduplicates [OF h1 h2 h3 h4, of "[]"]
  have "pending t1" "''a.pdf'' \<in> prefetchingSet s1 FileBrowser"
    "prefetchPdf FileBrowser env_ok ''a.pdf'' sn = (Done Fulfilled, sn)"
    by simp_all
  with h1 h2 h3 h4 t1 c1 cn show ?thesis by simp
qed

text \<open>
  Claim C4. When the rendering inside \<open>prefetchPdf\<close> throws (in either module), the call
  still settles with a fulfilled promise; then the key is not in the in-flight set, the
  cache is what it was, so \<open>getPdfPages\<close> finds nothing for the key, and the next
  \<open>prefetchPdf\<close> of the key claims it again and calls the renderer again.
\<close>

theorem prefetchPdf_failure_cleanup:
  assumes "map_get Y (pdfPagesCache s) = None" "Y \<notin> prefetchingSet s m"
    and "takes_render_path m s Y" "render_throws e Y"
  shows "\<exists>n s'. prefetch_steps e n (prefetchPdf m e Y s) = Some (Done Fulfilled, s') \<and>
           Y \<notin> prefetchingSet s' m \<and>
           prefetchingSet s' = prefetchingSet s \<and>
           pdfPagesCache s' = pdfPagesCache s \<and>
           getPdfPages Y (pdfPagesCache s') = (None, pdfPagesCache s') \<and>
           prefetchPdf m e Y s' =
             (AwaitImport m Y,
              s'\<lparr>prefetchingSet := (prefetchingSet s')(m := insert Y (prefetchingSet s' m)),
                 calls := calls s' @ (case m of FileBrowser \<Rightarrow> [ManifestLookup Y, ImportPdfjs]
                                             | FilePage \<Rightarrow> [ImportPdfjs])\<rparr>)"
proof -
  let ?s1 = "s\<lparr>prefetchingSet := (prefetchingSet s)(m := insert Y (prefetchingSet s m)),
        calls := calls s @ (case m of FileBrowser \<Rightarrow> [ManifestLookup Y, ImportPdfjs]
                                   | FilePage \<Rightarrow> [ImportPdfjs])\<rparr>"
  have start: "prefetchPdf m e Y s = (AwaitImport m Y, ?s1)"
    using assms(1-3) by (rule prefetchPdf_render_start)
  from render_throws_settles [OF assms(4), of m ?s1]
  obtain n s' where run: "prefetch_steps e n (AwaitImport m Y, ?s1) = Some (Done Fulfilled, s')"
    and c: "pdfPagesCache s' = pdfPagesCache s" and mf: "pdfManifest s' = pdfManifest s"
    and fl: "prefetchingSet s' = (prefetchingSet ?s1)(m := prefetchingSet ?s1 m - {Y})"
    by auto
  have same: "prefetchingSet s' = prefetchingSet s"
    using fl assms(2) by (auto simp: fun_eq_iff)
  with assms(2) have idle: "Y \<notin> prefetchingSet s' m" by simp
  have miss: "map_get Y (pdfPagesCache s') = None" using c assms(1) by simp
  have path: "takes_render_path m s' Y"
    using assms(3) mf by (simp add: takes_render_path_def split: module.splits)
  note again = prefetchPdf_render_start [OF miss idle path, of e]
  have got: "getPdfPages Y (pdfPagesCache s') = (None, pdfPagesCache s')"
    using miss by (rule getPdfPages_miss)
  have settled: "prefetch_steps e n (prefetchPdf m e Y s) = Some (Done Fulfilled, s')"
    unfolding start by (rule run)
  from settled idle same c got again show ?thesis by blast
qed

theorem prefetchPdf_failure_cleanup_witness:
  "map_get ''y.pdf'' (pdfPagesCache init_state) = None \<and>
   ''y.pdf'' \<notin> prefetchingSet init_state FileBrowser \<and>
   takes_render_path FileBrowser init_state ''y.pdf'' \<and>
   render_throws env_page2_fails ''y.pdf'' \<and>
   (\<exists>n s'. prefetch_steps env_page2_fails n (prefetchPdf FileBrowser env_page2_fails ''y.pdf'' init_state)
              = Some (Done Fulfilled, s') \<and>
            ''y.pdf'' \<notin> prefetchingSet s' FileBrowser \<and>
            pdfPagesCache s' = [] \<and>
            fst (prefetchPdf FileBrowser env_page2_fails ''y.pdf'' s') = AwaitImport FileBrowser ''y.pdf'')"
proof -
  have h1: "map_get ''y.pdf'' (pdfPagesCache init_state) = None"
    by (simp add: init_state_def map_get_def)
  have h2: "''y.pdf'' \<notin> prefetchingSet init_state FileBrowser"
    by (simp add: init_state_def)
  have h3: "takes_render_path FileBrowser init_state ''y.pdf''"
    by (simp add: takes_render_path_def init_state_def manifest_entry_def)
  have h4: "render_throws env_page2_fails ''y.pdf''"
    by (rule render_throws_page2)
  from prefetchPdf_failure_cleanup [OF h1 h2 h3 h4]
  obtain n s' where
    "prefetch_steps env_page2_fails n (prefetchPdf FileBrowser env_page2_fails ''y.pdf'' init_state)
       = Some (Done Fulfilled, s')"
    "''y.pdf'' \<notin> prefetchingSet s' FileBrowser"
    "pdfPagesCache s' = pdfPagesCache init_state"
    "fst (prefetchPdf FileBrowser env_page2_fails ''y.pdf'' s') = AwaitImport FileBrowser ''y.pdf''"
    by auto
  moreover have "pdfPagesCache init_state = []" by (simp add: init_state_def)
  ultimately show ?thesis using h1 h2 h3 h4 by metis
qed

text \<open>
  Claim C5, as amended. In the file browser, the prefetch of a key that is neither cached
  nor in flight and has a manifest entry of \<open>N > 0\<close> pages resolves exactly \<open>N\<close> URLs,
  for the pages \<open>1, \<dots>, N\<close> in this order, each by \<open>getPageImageUrl\<close>; up to page 999
  the page number is written with three digits, zeros in front. No call of the renderer
  is made at any point of this prefetch, and after two resumptions the URLs are in the
  cache (when \<open>setPdfPages\<close> returns).
\<close>

theorem prefetchPdf_manifest_path:
  assumes miss: "map_get Z (pdfPagesCache s) = None"
    and idle: "Z \<notin> prefetchingSet s FileBrowser"
    and entry: "manifest_entry (pdfManifest s) Z = Some N" and pos: "N > 0"
  shows "\<exists>urls. fst (prefetchPdf FileBrowser e Z s) = AwaitLoadPagesFromImages FileBrowser Z urls \<and>
           length urls = nat N \<and>
           (\<forall>k < nat N. urls ! k = getPageImageUrl (development e) Z (int k + 1)) \<and>
           (\<forall>k < nat N. k < 999 \<longrightarrow> urls ! k =
              WORKER_URL (development e) @ ''/pdfs-as-jpegs/'' @ replace_first ''.pdf'' [] Z @
              ''/page-'' @ [digit_char (Suc k div 100), digit_char (Suc k div 10 mod 10),
                            digit_char (Suc k mod 10)] @ ''.jpg'') \<and>
           (\<forall>n t s'. prefetch_steps e n (prefetchPdf FileBrowser e Z s) = Some (t, s') \<longrightarrow>
              filter is_rendering_call (calls s') = filter is_rendering_call (calls s)) \<and>
           prefetch_steps e 2 (prefetchPdf FileBrowser e Z s) =
             (case setPdfPages Z urls (pdfPagesCache s) of
                None \<Rightarrow> None
              | Some c \<Rightarrow>
                  Some (Done Fulfilled,
                        s\<lparr>pdfPagesCache := c,
                          calls := calls s @ ManifestLookup Z # map ImageLoad urls\<rparr>))"
proof -
  let ?urls = "loadPagesFromImages (development e) Z N"
  let ?s1 = "log_call (ManifestLookup Z)
       (s\<lparr>prefetchingSet := (prefetchingSet s)(FileBrowser := insert Z (prefetchingSet s FileBrowser))\<rparr>)"
  have start: "prefetchPdf FileBrowser e Z s = (AwaitLoadPagesFromImages FileBrowser Z ?urls, ?s1)"
    unfolding prefetchPdf_browser_miss [OF miss idle] using entry pos by (simp add: Let_def)
  have len: "length ?urls = nat N" by (simp add: loadPagesFromImages_def)
  have nth: "?urls ! k = getPageImageUrl (development e) Z (int k + 1)" if "k < nat N" for k
    using that by (simp add: loadPagesFromImages_def nth_upto add.commute)
  have name: "?urls ! k =
      WORKER_URL (development e) @ ''/pdfs-as-jpegs/'' @ replace_first ''.pdf'' [] Z @
      ''/page-'' @ [digit_char (Suc k div 100), digit_char (Suc k div 10 mod 10),
                    digit_char (Suc k mod 10)] @ ''.jpg''" if "k < nat N" "k < 999" for k
  proof -
    have "nat (int k + 1) = Suc k" by simp
    then show ?thesis
      using nth [OF that(1)] getPageImageUrl_page [of "int k + 1" "development e" Z] that(2)
      by simp
  qed
  have quiet: "filter is_rendering_call (calls s') = filter is_rendering_call (calls s)"
    if "prefetch_steps e n (prefetchPdf FileBrowser e Z s) = Some (t, s')" for n t s'
  proof -
    from that have "prefetch_steps e n (AwaitLoadPagesFromImages FileBrowser Z ?urls, ?s1) = Some (t, s')"
      unfolding start .
    then have "filter is_rendering_call (calls s') = filter is_rendering_call (calls ?s1)"
      by (rule prefetch_steps_renders_no_more) simp
    then show ?thesis by (simp add: log_call_def)
  qed
  have restored: "(prefetchingSet s)(FileBrowser := prefetchingSet s FileBrowser - {Z})
      = prefetchingSet s"
    using idle by (auto simp: fun_eq_iff)
  have two: "prefetch_steps e 2 (prefetchPdf FileBrowser e Z s) =
             (case setPdfPages Z ?urls (pdfPagesCache s) of
                None \<Rightarrow> None
              | Some c \<Rightarrow>
                  Some (Done Fulfilled,
                        s\<lparr>pdfPagesCache := c,
                          calls := calls s @ ManifestLookup Z # map ImageLoad ?urls\<rparr>))"
    unfolding start
    by (simp add: numeral_2_eq_2 prefetch_exit_eq log_call_def restored split: option.splits)
  have first: "fst (prefetchPdf FileBrowser e Z s) = AwaitLoadPagesFromImages FileBrowser Z ?urls"
    by (simp only: start fst_conv)
  show ?thesis
  proof (intro exI [of _ ?urls] conjI allI impI)
    show "fst (prefetchPdf FileBrowser e Z s) = AwaitLoadPagesFromImages FileBrowser Z ?urls"
      by (rule first)
    show "length ?urls = nat N" by (rule len)
    show "?urls ! k = getPageImageUrl (development e) Z (int k + 1)" if "k < nat N" for k
      using that by (rule nth)
    show "?urls ! k =
      WORKER_URL (development e) @ ''/pdfs-as-jpegs/'' @ replace_first ''.pdf'' [] Z @
      ''/page-'' @ [digit_char (Suc k div 100), digit_char (Suc k div 10 mod 10),
                    digit_char (Suc k mod 10)] @ ''.jpg''" if "k < nat N" "k < 999" for k
      using that by (rule name)
    show "filter is_rendering_call (calls s') = filter is_rendering_call (calls s)"
      if "prefetch_steps e n (prefetchPdf FileBrowser e Z s) = Some (t, s')" for n t s'
      using that by (rule quiet)
    show "prefetch_steps e 2 (prefetchPdf FileBrowser e Z s) =
             (case setPdfPages Z ?urls (pdfPagesCache s) of
                None \<Rightarrow> None
              | Some c \<Rightarrow>
                  Some (Done Fulfilled,
                        s\<lparr>pdfPagesCache := c,
                          calls := calls s @ ManifestLookup Z # map ImageLoad ?urls\<rparr>))"
      by (rule two)
  qed
qed

theorem prefetchPdf_manifest_path_witness:
  "map_get ''z.pdf'' (pdfPagesCache (init_state\<lparr>pdfManifest := Some [(''z.pdf'', 3)]\<rparr>)) = None \<and>
   ''z.pdf'' \<notin> prefetchingSet (init_state\<lparr>pdfManifest := Some [(''z.pdf'', 3)]\<rparr>) FileBrowser \<and>
   manifest_entry (pdfManifest (init_state\<lparr>pdfManifest := Some [(''z.pdf'', 3)]\<rparr>)) ''z.pdf'' = Some 3 \<and>
   (0::int) < 3 \<and>
   fst (prefetchPdf FileBrowser env_ok ''z.pdf'' (init_state\<lparr>pdfManifest := Some [(''z.pdf'', 3)]\<rparr>))
     = AwaitLoadPagesFromImages FileBrowser ''z.pdf''
         [''https://epstein-files.rhys-669.workers.dev/pdfs-as-jpegs/z/page-001.jpg'',
          ''https://epstein-files.rhys-669.workers.dev/pdfs-as-jpegs/z/page-002.jpg'',
          ''https://epstein-files.rhys-669.workers.dev/pdfs-as-jpegs/z/page-003.jpg''] \<and>
   map_option (\<lambda>ts. filter is_rendering_call (calls (snd ts)))
     (prefetch_steps env_ok 2
        (prefetchPdf FileBrowser env_ok ''z.pdf'' (init_state\<lparr>pdfManifest := Some [(''z.pdf'', 3)]\<rparr>)))
     = Some []"
proof -
  let ?s = "init_state\<lparr>pdfManifest := Some [(''z.pdf'', 3)]\<rparr>"
  have h1: "map_get ''z.pdf'' (pdfPagesCache ?s) = None"
    by (simp add: init_state_def map_get_def)
  have h2: "''z.pdf'' \<notin> prefetchingSet ?s FileBrowser"
    by (simp add: init_state_def)
  have h3: "manifest_entry (pdfManifest ?s) ''z.pdf'' = Some 3"
    by (simp add: manifest_entry_def)
  have h4: "(0::int) < 3" by simp
  have urls: "loadPagesFromImages False ''z.pdf'' 3 =
         [''https://epstein-files.rhys-669.workers.dev/pdfs-as-jpegs/z/page-001.jpg'',
          ''https://epstein-files.rhys-669.workers.dev/pdfs-as-jpegs/z/page-002.jpg'',
          ''https://epstein-files.rhys-669.workers.dev/pdfs-as-jpegs/z/page-003.jpg'']"
    by (simp add: loadPagesFromImages_def getPageImageUrl_def js_String_def digit_char_def
        padStart_def WORKER_URL_def upto.simps numeral_2_eq_2)
  have wf: "wf_cache []" by (rule wf_cache_empty)
  from prefetchPdf_manifest_path [OF h1 h2 h3 h4, of env_ok]
  obtain us where
    f: "fst (prefetchPdf FileBrowser env_ok ''z.pdf'' ?s) = AwaitLoadPagesFromImages FileBrowser ''z.pdf'' us"
    and q: "\<And>n t s'. prefetch_steps env_ok n (prefetchPdf FileBrowser env_ok ''z.pdf'' ?s) = Some (t, s') \<Longrightarrow>
              filter is_rendering_call (calls s') = filter is_rendering_call (calls ?s)"
    and two: "prefetch_steps env_ok 2 (prefetchPdf FileBrowser env_ok ''z.pdf'' ?s) =
             (case setPdfPages ''z.pdf'' us (pdfPagesCache ?s) of
                None \<Rightarrow> None
              | Some c \<Rightarrow>
                  Some (Done Fulfilled,
                        ?s\<lparr>pdfPagesCache := c,
                          calls := calls ?s @ ManifestLookup ''z.pdf'' # map ImageLoad us\<rparr>))"
    by blast
  have us: "us = loadPagesFromImages False ''z.pdf'' 3"
    using f unfolding prefetchPdf_browser_miss [OF h1 h2] h3
    by (simp add: Let_def env_ok_def)
  have "setPdfPages ''z.pdf'' us (pdfPagesCache ?s) = Some [(''z.pdf'', us)]"
    by (simp add: init_state_def setPdfPages_cases [OF wf] map_has_def PDF_CACHE_MAX_SIZE_def)
  with two obtain t s' where
    r: "prefetch_steps env_ok 2 (prefetchPdf FileBrowser env_ok ''z.pdf'' ?s) = Some (t, s')"
    by simp
  from q [OF r] have "filter is_rendering_call (calls s') = []" by (simp add: init_state_def)
  with r f us urls h1 h2 h3 show ?thesis by simp
qed

text \<open>
  Claim C5 as stated covers \<open>prefetchPdf\<close> of the file page too, which never reads the
  manifest: with a manifest entry of 3 pages for the key it imports the renderer, renders
  the document and caches the rendered pages.
\<close>

theorem page_prefetchPdf_ignores_manifest:
  "manifest_entry (pdfManifest (init_state\<lparr>pdfManifest := Some [(''z.pdf'', 3)]\<rparr>)) ''z.pdf'' = Some 3 \<and>
   prefetchPdf FilePage env_ok ''z.pdf'' (init_state\<lparr>pdfManifest := Some [(''z.pdf'', 3)]\<rparr>)
     = (AwaitImport FilePage ''z.pdf'',
        \<lparr>pdfPagesCache = [], pdfManifest = Some [(''z.pdf'', 3)],
         prefetchingSet = (\<lambda>m. {})(FilePage := {''z.pdf''}), calls = [ImportPdfjs]\<rparr>) \<and>
   map_option (\<lambda>ts. (fst ts, pdfPagesCache (snd ts), calls (snd ts)))
     (prefetch_steps env_ok 6
        (prefetchPdf FilePage env_ok ''z.pdf'' (init_state\<lparr>pdfManifest := Some [(''z.pdf'', 3)]\<rparr>)))
     = Some (Done Fulfilled, [(''z.pdf'', [''data:1'', ''data:2''])],
         [ImportPdfjs, GetDocument ''https://epstein-files.rhys-669.workers.dev/z.pdf'',
          GetPage ''https://epstein-files.rhys-669.workers.dev/z.pdf'' 1,
          Render ''https://epstein-files.rhys-669.workers.dev/z.pdf'' 1,
          GetPage ''https://epstein-files.rhys-669.workers.dev/z.pdf'' 2,
          Render ''https://epstein-files.rhys-669.workers.dev/z.pdf'' 2])"
proof -
  have wf: "wf_cache []" by (rule wf_cache_empty)
  show ?thesis
    by (simp add: manifest_entry_def init_state_def getPdfPages_def map_get_def Let_def
        start_render_def log_call_def env_ok_def eval_nat_numeral prefetch_loop_def
        fileUrl_def WORKER_URL_def setPdfPages_cases [OF wf] map_has_def PDF_CACHE_MAX_SIZE_def
        prefetch_exit_eq digit_char_def)
qed

text \<open>
  Claim C7, as amended. \<open>prefetchPdf\<close> of a key that is in the cache returns at once:
  no external call is made, the in-flight sets and the manifest are unchanged, and the
  cache keeps the same entries with the same pages. The recency order changes: the key
  moves to the most recently used position, the other keys keep their relative order.
\<close>

theorem prefetchPdf_cached_key_refreshes_recency:
  assumes "map_get X (pdfPagesCache s) = Some v"
  shows "fst (prefetchPdf m e X s) = Done Fulfilled \<and>
         calls (snd (prefetchPdf m e X s)) = calls s \<and>
         prefetchingSet (snd (prefetchPdf m e X s)) = prefetchingSet s \<and>
         pdfManifest (snd (prefetchPdf m e X s)) = pdfManifest s \<and>
         pdfPagesCache (snd (prefetchPdf m e X s)) = map_delete X (pdfPagesCache s) @ [(X, v)] \<and>
         (\<forall>k. map_get k (pdfPagesCache (snd (prefetchPdf m e X s))) = map_get k (pdfPagesCache s))"
proof -
  have "map_get k (map_delete X (pdfPagesCache s) @ [(X, v)]) = map_get k (pdfPagesCache s)" for k
    using assms by (auto simp: map_get_def map_add_def map_of_map_delete split: option.splits)
  then show ?thesis by (simp add: prefetchPdf_hit [OF assms])
qed

theorem prefetchPdf_cached_key_refreshes_recency_witness:
  "map_get ''x.pdf'' (pdfPagesCache (init_state\<lparr>pdfPagesCache := [(''x.pdf'', [''p'']), (''y.pdf'', [''q''])]\<rparr>))
     = Some [''p''] \<and>
   fst (prefetchPdf FileBrowser env_ok ''x.pdf''
          (init_state\<lparr>pdfPagesCache := [(''x.pdf'', [''p'']), (''y.pdf'', [''q''])]\<rparr>)) = Done Fulfilled \<and>
   calls (snd (prefetchPdf FileBrowser env_ok ''x.pdf''
          (init_state\<lparr>pdfPagesCache := [(''x.pdf'', [''p'']), (''y.pdf'', [''q''])]\<rparr>))) = [] \<and>
   pdfPagesCache (snd (prefetchPdf FileBrowser env_ok ''x.pdf''
          (init_state\<lparr>pdfPagesCache := [(''x.pdf'', [''p'']), (''y.pdf'', [''q''])]\<rparr>)))
     = [(''y.pdf'', [''q'']), (''x.pdf'', [''p''])]"
proof -
  let ?s = "init_state\<lparr>pdfPagesCache := [(''x.pdf'', [''p'']), (''y.pdf'', [''q''])]\<rparr>"
  have h: "map_get ''x.pdf'' (pdfPagesCache ?s) = Some [''p'']"
    by (simp add: map_get_def)
  show ?thesis
    using h prefetchPdf_cached_key_refreshes_recency [OF h, of FileBrowser env_ok]
    by (simp add: map_delete_def init_state_def)
qed

text \<open>
  Claim C7 as stated says that the recency order is left as it was. The call reads the
  cache with \<open>getPdfPages\<close>, which moves the key to the end.
\<close>

theorem prefetchPdf_cached_key_changes_order:
  "map_has ''x.pdf'' [(''x.pdf'', [''p'']), (''y.pdf'', [''q''])] \<and>
   pdfPagesCache (snd (prefetchPdf FileBrowser env_ok ''x.pdf''
      (init_state\<lparr>pdfPagesCache := [(''x.pdf'', [''p'']), (''y.pdf'', [''q''])]\<rparr>)))
     = [(''y.pdf'', [''q'']), (''x.pdf'', [''p''])] \<and>
   pdfPagesCache (snd (prefetchPdf FileBrowser env_ok ''x.pdf''
      (init_state\<lparr>pdfPagesCache := [(''x.pdf'', [''p'']), (''y.pdf'', [''q''])]\<rparr>)))
     \<noteq> pdfPagesCache (init_state\<lparr>pdfPagesCache := [(''x.pdf'', [''p'']), (''y.pdf'', [''q''])]\<rparr>)"
  by (simp add: map_has_def getPdfPages_def map_get_def map_delete_def Let_def)

text \<open>
  Claim C8. Once the cancellation flag of a direct load is set, the load writes no state
  any more. The cache, \<open>loading\<close> and \<open>error\<close> are indeed not written
  (\<open>load_resume_cancelled\<close>). The pages of the view are: the flag is set while the load
  waits for page 1, the page is rendered, and the continuation calls \<open>setPages\<close>
  before the flag is tested again at the head of the loop.
\<close>

theorem loadPages_writes_pages_after_cancellation:
  "map_option (\<lambda>c. (fst c, pages (snd (snd c)), cancelled (snd (snd c)), writes (snd (snd c))))
     (load_run FileBrowser env_ok [Resume, Resume, Cleanup]
        (load_effect FileBrowser env_ok ''a.pdf'' init_state init_view))
     = Some (LoadAwaitGetPage ''a.pdf'' 2 1 [], [], True,
             [SetError None, SetPages [], SetLoading True]) \<and>
   map_option (\<lambda>c. (fst c, pages (snd (snd c)), cancelled (snd (snd c)), writes (snd (snd c))))
     (load_run FileBrowser env_ok [Resume, Resume, Cleanup, Resume, Resume]
        (load_effect FileBrowser env_ok ''a.pdf'' init_state init_view))
     = Some (LoadDone, [''data:1''], True,
             [SetError None, SetPages [], SetLoading True, SetPages [''data:1'']])"
  by (simp add: init_state_def init_view_def env_ok_def getPdfPages_def map_get_def Let_def
      setError_def setPages_def setLoading_def log_call_def manifest_entry_def
      getPdfManifest_def load_loop_def cleanup_def load_exit_def digit_char_def)

end
